theory Spec2Isabelle
  imports Main "HOL-Library.Word"
begin

unbundle bit_operations_syntax

section \<open>Data model and library primitives\<close>

text \<open>
  The sources are \<^verbatim>\<open>z5d_key_gen.c\<close> and \<^verbatim>\<open>z_seed_generator.h\<close>. GMP integers
  (\<^verbatim>\<open>mpz_t\<close>) are unbounded and signed: they are \<open>int\<close>. \<^verbatim>\<open>unsigned long\<close>
  and \<^verbatim>\<open>size_t\<close> used as counters that can wrap are 64-bit words (LP64, the platform
  of \<^verbatim>\<open>/dev/urandom\<close>). Buffer sizes that never overflow are \<open>nat\<close>.
  A pointer that may be \<^verbatim>\<open>NULL\<close> is an \<open>option\<close>.
\<close>

type_synonym byte = "8 word"
type_synonym ulong = "64 word"

definition SEED_SIZE :: nat where
  "SEED_SIZE = 32"

definition SHA256_DIGEST_LENGTH :: nat where
  "SHA256_DIGEST_LENGTH = 32"

definition MR_GEODESIC_WITNESSES :: nat where
  "MR_GEODESIC_WITNESSES = 6"

definition MR_STANDARD_WITNESSES :: nat where
  "MR_STANDARD_WITNESSES = 8"

definition MR_STANDARD_BASES :: "int list" where
  "MR_STANDARD_BASES = [2, 3, 5, 7, 11, 13, 17, 19]"

text \<open>
  \<^verbatim>\<open>config_t\<close>: the fields the modelled functions read are the seed and the integer
  settings; the three \<^verbatim>\<open>double\<close> parameters of the estimator are left out.
\<close>

record config_t =
  cfg_seed :: "byte list"
  cfg_seed_hex :: string
  cfg_bits :: int
  cfg_e :: ulong
  cfg_validity_days :: int
  cfg_bump_p :: int
  cfg_bump_q :: int

record mr_context_t =
  mr_n :: int
  n_minus_1 :: int
  n_minus_3 :: int
  mr_d :: int
  mr_r :: nat

text \<open>
  What the code gets from outside the repository: OpenSSL's \<^verbatim>\<open>SHA256\<close> (a function
  from a byte string to a digest, 32 bytes long in OpenSSL) and whether \<^verbatim>\<open>malloc\<close>
  of a given size succeeds.
\<close>

record extern =
  sha256 :: "byte list \<Rightarrow> byte list"
  malloc_ok :: "nat \<Rightarrow> bool"

definition sha256_sized :: "(byte list \<Rightarrow> byte list) \<Rightarrow> bool" where
  "sha256_sized H = (\<forall>x. length (H x) = 32)"

subsection \<open>Memory and byte strings\<close>

definition bytes_of_string :: "string \<Rightarrow> byte list" where
  "bytes_of_string s = map of_char s"

text \<open>\<^verbatim>\<open>memcpy(dst + off, src, n)\<close> and \<^verbatim>\<open>memset(dst, v, n)\<close> on a buffer given by its contents.\<close>

definition memcpy :: "byte list \<Rightarrow> nat \<Rightarrow> byte list \<Rightarrow> nat \<Rightarrow> byte list" where
  "memcpy dst off src n = take off dst @ take n src @ drop (off + n) dst"

definition memset :: "byte list \<Rightarrow> byte \<Rightarrow> nat \<Rightarrow> byte list" where
  "memset dst v n = replicate n v @ drop n dst"

text \<open>The eight bytes of an \<^verbatim>\<open>unsigned long\<close> or \<^verbatim>\<open>size_t\<close> object, least significant first.\<close>

definition le_bytes64 :: "ulong \<Rightarrow> byte list" where
  "le_bytes64 w = map (\<lambda>k. ucast (drop_bit (8 * k) w)) [0..<8]"

subsection \<open>GMP operations\<close>

function be_bytes :: "nat \<Rightarrow> byte list" where
  "be_bytes n = (if n = 0 then [] else be_bytes (n div 256) @ [of_nat (n mod 256)])"
  by pat_completeness auto
termination
  by (relation "measure id") auto

function bit_length :: "nat \<Rightarrow> nat" where
  "bit_length n = (if n = 0 then 0 else Suc (bit_length (n div 2)))"
  by pat_completeness auto
termination
  by (relation "measure id") auto

text \<open>\<^verbatim>\<open>mpz_export(buf, &count, 1, 1, 0, 0, op)\<close>: the magnitude, most significant byte first;
  nothing for zero.\<close>

definition mpz_export :: "int \<Rightarrow> byte list" where
  "mpz_export op = be_bytes (nat \<bar>op\<bar>)"

text \<open>\<^verbatim>\<open>mpz_import(rop, count, 1, 1, 0, 0, buf)\<close>: \<open>count\<close> bytes, most significant first.\<close>

definition mpz_import :: "nat \<Rightarrow> byte list \<Rightarrow> int" where
  "mpz_import count buf = foldl (\<lambda>acc b. acc * 256 + uint b) 0 (take count buf)"

definition mpz_sizeinbase2 :: "int \<Rightarrow> nat" where
  "mpz_sizeinbase2 op = (if op = 0 then 1 else bit_length (nat \<bar>op\<bar>))"

definition mpz_mod :: "int \<Rightarrow> int \<Rightarrow> int" where
  "mpz_mod n d = n mod \<bar>d\<bar>"

text \<open>\<^verbatim>\<open>mpz_powm\<close> and \<^verbatim>\<open>mpz_powm_ui\<close>, called here with a non-negative exponent and a
  positive modulus only.\<close>

definition mpz_powm :: "int \<Rightarrow> int \<Rightarrow> int \<Rightarrow> int" where
  "mpz_powm b ex m = (b ^ nat ex) mod \<bar>m\<bar>"

definition mpz_powm_ui :: "int \<Rightarrow> nat \<Rightarrow> int \<Rightarrow> int" where
  "mpz_powm_ui b ex m = (b ^ ex) mod \<bar>m\<bar>"

definition mpz_fdiv_q_2exp :: "int \<Rightarrow> nat \<Rightarrow> int" where
  "mpz_fdiv_q_2exp n b = n div 2 ^ b"

definition mpz_tstbit :: "int \<Rightarrow> nat \<Rightarrow> bool" where
  "mpz_tstbit op k = bit op k"

definition mpz_setbit :: "int \<Rightarrow> nat \<Rightarrow> int" where
  "mpz_setbit op k = set_bit k op"

definition mpz_clrbit :: "int \<Rightarrow> nat \<Rightarrow> int" where
  "mpz_clrbit op k = unset_bit k op"

text \<open>\<^verbatim>\<open>mpz_get_ui\<close>: the least significant 64 bits of the magnitude.\<close>

definition mpz_get_ui :: "int \<Rightarrow> ulong" where
  "mpz_get_ui op = word_of_int \<bar>op\<bar>"

section \<open>Key derivation: \<^verbatim>\<open>derive_seed\<close>\<close>

definition TAG_PREFIX_MAX :: nat where
  "TAG_PREFIX_MAX = 32"

text \<open>
  The emitting loop of \<^verbatim>\<open>derive_seed\<close>: \<open>output\<close> is the contents of the output buffer,
  \<open>produced\<close> the bytes written so far, \<open>digest\<close> the digest buffer.
\<close>

function derive_loop ::
  "(byte list \<Rightarrow> byte list) \<Rightarrow> nat \<Rightarrow> byte list \<Rightarrow> nat \<Rightarrow> byte list \<Rightarrow> byte list" where
  "derive_loop H output_size output produced digest =
     (if produced < output_size then
        (let chunk = (if SHA256_DIGEST_LENGTH > output_size - produced
                      then output_size - produced else SHA256_DIGEST_LENGTH);
             output' = memcpy output produced digest chunk;
             produced' = produced + chunk
         in derive_loop H output_size output' produced'
              (if produced' < output_size then H (take SHA256_DIGEST_LENGTH digest) else digest))
      else output)"
  by pat_completeness auto
termination
  by (relation "measure (\<lambda>(H, output_size, output, produced, digest). output_size - produced)")
     (auto simp: SHA256_DIGEST_LENGTH_def)

declare derive_loop.simps [simp del]

text \<open>
  \<^verbatim>\<open>derive_seed(base_seed, tag, output, output_size)\<close>. The tag is the characters of the
  C string before its terminator. The result is the contents of the output buffer after
  the call (\<open>None\<close> for a null buffer, which is never written).
\<close>

definition derive_seed ::
  "(byte list \<Rightarrow> byte list) \<Rightarrow> byte list option \<Rightarrow> string option \<Rightarrow> byte list option \<Rightarrow> nat
    \<Rightarrow> byte list option" where
  "derive_seed H base_seed tag output output_size =
     (case output of
        None \<Rightarrow> None
      | Some out \<Rightarrow>
          if output_size = 0 then Some out
          else (case base_seed of
                  None \<Rightarrow> Some (memset out 0 output_size)
                | Some s \<Rightarrow>
                    (case tag of
                       None \<Rightarrow> Some (memset out 0 output_size)
                     | Some t \<Rightarrow>
                         (let tag_len = (if length t > TAG_PREFIX_MAX then TAG_PREFIX_MAX else length t);
                              context0 = replicate (SEED_SIZE + TAG_PREFIX_MAX) 0;
                              context1 = memcpy context0 0 (bytes_of_string t) tag_len;
                              context2 = memcpy context1 tag_len s SEED_SIZE;
                              digest = H (take (tag_len + SEED_SIZE) context2)
                          in Some (derive_loop H output_size out 0 digest)))))"

text \<open>
  The stream the specification describes: \<open>k\<close> digests, each the hash of the one before.
\<close>

fun digest_stream :: "(byte list \<Rightarrow> byte list) \<Rightarrow> byte list \<Rightarrow> nat \<Rightarrow> byte list" where
  "digest_stream H d 0 = []"
| "digest_stream H d (Suc k) = d @ digest_stream H (H d) k"

definition spec_derive :: "(byte list \<Rightarrow> byte list) \<Rightarrow> byte list \<Rightarrow> string \<Rightarrow> nat \<Rightarrow> byte list" where
  "spec_derive H S T N =
     take N (digest_stream H (H (bytes_of_string (take 32 T) @ S)) ((N + 31) div 32))"

lemma digest_stream_length:
  "sha256_sized H \<Longrightarrow> length d = 32 \<Longrightarrow> length (digest_stream H d k) = 32 * k"
  by (induction k arbitrary: d) (auto simp: sha256_sized_def)

lemma derive_loop_done:
  "\<not> p < N \<Longrightarrow> derive_loop H N out p d = out"
  by (subst derive_loop.simps) simp

lemma derive_loop_step:
  "p < N \<Longrightarrow>
   derive_loop H N out p d =
     derive_loop H N (memcpy out p d (min 32 (N - p))) (p + min 32 (N - p))
       (if p + min 32 (N - p) < N then H (take 32 d) else d)"
  by (subst derive_loop.simps) (simp add: Let_def SHA256_DIGEST_LENGTH_def min_def)

lemma derive_loop_stream:
  "sha256_sized H \<Longrightarrow> length d = 32 \<Longrightarrow> p \<le> N \<Longrightarrow> N \<le> length out \<Longrightarrow> N - p \<le> 32 * m \<Longrightarrow>
   derive_loop H N out p d = take p out @ take (N - p) (digest_stream H d m) @ drop N out"
proof (induction m arbitrary: p d out)
  case 0
  then have "p = N" by simp
  then show ?case by (simp add: derive_loop_done)
next
  case (Suc m)
  show ?case
  proof (cases "p < N")
    case False
    with Suc.prems have "p = N" by simp
    then show ?thesis by (simp add: derive_loop_done)
  next
    case True
    define chunk where "chunk = min 32 (N - p)"
    define out' where "out' = memcpy out p d chunk"
    define d' where "d' = (if p + chunk < N then H (take 32 d) else d)"
    have chunk: "0 < chunk" "chunk \<le> 32" "p + chunk \<le> N"
      using True by (auto simp: chunk_def)
    have len_d': "length d' = 32"
      using Suc.prems(1,2) by (auto simp: d'_def sha256_sized_def)
    have len_out': "length out' = length out"
      using Suc.prems chunk by (simp add: out'_def memcpy_def)
    have rest: "N - (p + chunk) \<le> 32 * m"
      using Suc.prems(5) by (auto simp: chunk_def min_def)
    have step: "derive_loop H N out p d = derive_loop H N out' (p + chunk) d'"
      using derive_loop_step [OF True] by (simp add: chunk_def out'_def d'_def)
    have IH: "derive_loop H N out' (p + chunk) d' =
        take (p + chunk) out' @ take (N - (p + chunk)) (digest_stream H d' m) @ drop N out'"
      using Suc.IH [of d' "p + chunk" out'] Suc.prems(1,4) len_d' chunk(3) len_out' rest
      by simp
    have t1: "take (p + chunk) out' = take p out @ take chunk d"
      using Suc.prems chunk by (simp add: out'_def memcpy_def)
    have t2: "drop N out' = drop N out"
      using Suc.prems chunk by (simp add: out'_def memcpy_def)
    have t3: "take chunk d @ take (N - (p + chunk)) (digest_stream H d' m) =
              take (N - p) (d @ digest_stream H (H d) m)"
    proof (cases "p + chunk < N")
      case True
      then have "chunk = 32" by (auto simp: chunk_def min_def split: if_splits)
      then show ?thesis
        using True Suc.prems(2) by (simp add: d'_def)
    next
      case False
      then have "N - p = chunk" using chunk by simp
      then show ?thesis
        using False Suc.prems(2) chunk by simp
    qed
    show ?thesis
      using step IH t1 t2 t3 by simp
  qed
qed

lemma derive_context:
  "length S = 32 \<Longrightarrow> tlen \<le> 32 \<Longrightarrow> tlen \<le> length tb \<Longrightarrow>
   take (tlen + 32) (memcpy (memcpy (replicate 64 0) 0 tb tlen) tlen S 32) = take tlen tb @ S"
  by (simp add: memcpy_def)

lemma derive_seed_eq:
  assumes "sha256_sized H" "length S = 32" "0 < N" "N \<le> length out"
  shows "derive_seed H (Some S) (Some T) (Some out) N = Some (spec_derive H S T N @ drop N out)"
proof -
  define tlen where "tlen = (if length T > 32 then 32 else length T)"
  define d0 where "d0 = H (bytes_of_string (take 32 T) @ S)"
  have tlen: "tlen \<le> 32" "tlen \<le> length (bytes_of_string T)"
    by (auto simp: tlen_def bytes_of_string_def)
  have tk: "take tlen (bytes_of_string T) = bytes_of_string (take 32 T)"
    by (auto simp: tlen_def bytes_of_string_def take_map)
  have ctx: "take (tlen + 32) (memcpy (memcpy (replicate 64 0) 0 (bytes_of_string T) tlen) tlen S 32)
      = bytes_of_string (take 32 T) @ S"
    using derive_context [OF assms(2) tlen] tk by simp
  have len: "length d0 = 32"
    using assms(1) by (simp add: d0_def sha256_sized_def)
  have "N - 0 \<le> 32 * ((N + 31) div 32)"
    by simp
  from derive_loop_stream [OF assms(1) len _ assms(4) this]
  have loop: "derive_loop H N out 0 d0 = take N (digest_stream H d0 ((N + 31) div 32)) @ drop N out"
    by simp
  show ?thesis
    using assms(3) ctx loop
    by (cases "32 < length T")
       (simp_all add: derive_seed_def Let_def TAG_PREFIX_MAX_def SEED_SIZE_def tlen_def
          spec_derive_def d0_def)
qed

lemma spec_derive_first_block:
  "sha256_sized H \<Longrightarrow> 0 < N \<Longrightarrow> N \<le> 32 \<Longrightarrow>
   spec_derive H S T N = take N (H (bytes_of_string (take 32 T) @ S))"
proof -
  assume a: "sha256_sized H" "0 < N" "N \<le> 32"
  then have "(N + 31) div 32 = Suc 0" by simp
  with a show ?thesis
    by (simp add: spec_derive_def sha256_sized_def)
qed

text \<open>A stand-in hash with 32-byte digests, for evaluating the functions on concrete inputs.\<close>

definition toy_hash :: "byte list \<Rightarrow> byte list" where
  "toy_hash x = replicate 32 (of_nat (length x) + sum_list x)"

lemma toy_hash_sized: "sha256_sized toy_hash"
  by (simp add: sha256_sized_def toy_hash_def)

text \<open>
  Claim C3. For every 32-byte seed \<open>S\<close>, tag \<open>T\<close> and length \<open>N > 0\<close>, \<^verbatim>\<open>derive_seed\<close>
  writes to the first \<open>N\<close> bytes of the output buffer the first \<open>N\<close> bytes of the stream
  \<open>digest0 || digest1 || ...\<close>, where \<open>digest0\<close> is the hash of the first \<open>min (|T|, 32)\<close>
  bytes of \<open>T\<close> followed by \<open>S\<close> and each later digest is the hash of the one before; the
  rest of the buffer is left as it was. The result is a function of \<open>(S, T, N)\<close> only. For
  \<open>S\<close> 32 zero bytes, \<open>T = "test"\<close> and \<open>N = 16\<close> the output is the first 16 bytes of the hash
  of \<open>"test"\<close> followed by 32 zero bytes. The hash is any function with 32-byte digests.
\<close>

theorem derive_seed_stream:
  assumes "sha256_sized H"
  shows "(length S = 32 \<and> 0 < N \<and> N \<le> length out \<longrightarrow>
            derive_seed H (Some S) (Some T) (Some out) N = Some (spec_derive H S T N @ drop N out))
       \<and> (length out16 = 16 \<longrightarrow>
            derive_seed H (Some (replicate 32 0)) (Some ''test'') (Some out16) 16
              = Some (take 16 (H (bytes_of_string ''test'' @ replicate 32 0))))"
proof (intro conjI impI)
  assume "length S = 32 \<and> 0 < N \<and> N \<le> length out"
  then show "derive_seed H (Some S) (Some T) (Some out) N = Some (spec_derive H S T N @ drop N out)"
    using derive_seed_eq [OF assms] by blast
next
  assume l: "length out16 = 16"
  have "derive_seed H (Some (replicate 32 0)) (Some ''test'') (Some out16) 16
      = Some (spec_derive H (replicate 32 0) ''test'' 16 @ drop 16 out16)"
    using derive_seed_eq [OF assms, of "replicate 32 0" 16 out16 "''test''"] l by simp
  moreover have "spec_derive H (replicate 32 0) ''test'' 16
      = take 16 (H (bytes_of_string ''test'' @ replicate 32 0))"
    using spec_derive_first_block [OF assms, of 16 "replicate 32 0" "''test''"] by simp
  ultimately show "derive_seed H (Some (replicate 32 0)) (Some ''test'') (Some out16) 16
      = Some (take 16 (H (bytes_of_string ''test'' @ replicate 32 0)))"
    using l by simp
qed

theorem derive_seed_stream_witness:
  "sha256_sized toy_hash
   \<and> derive_seed toy_hash (Some (replicate 32 7)) (Some ''p'') (Some (replicate 48 255)) 40
       = Some (spec_derive toy_hash (replicate 32 7) ''p'' 40 @ replicate 8 255)
   \<and> derive_seed toy_hash (Some (replicate 32 0)) (Some ''test'') (Some (replicate 16 255)) 16
       = Some (replicate 16 228)"
proof -
  have a: "length (replicate 32 (7::byte)) = 32 \<and> (0::nat) < 40 \<and> (40::nat) \<le> length (replicate 48 (255::byte))"
    by simp
  have b: "length (replicate 16 (255::byte)) = 16"
    by simp
  have c: "take 16 (toy_hash (bytes_of_string ''test'' @ replicate 32 0)) = replicate 16 228"
    by (simp add: toy_hash_def bytes_of_string_def sum_list_replicate)
  show ?thesis
    using derive_seed_stream [OF toy_hash_sized, of "replicate 32 7" 40 "replicate 48 255" "''p''"
        "replicate 16 255"] a b c toy_hash_sized
    by simp
qed

text \<open>
  Claim C10. With a null output buffer or an output length of 0, \<^verbatim>\<open>derive_seed\<close> returns
  without writing; with a null base seed or a null tag (and a buffer and a positive
  length) it writes \<open>output_size\<close> zero bytes, the whole buffer when \<open>output_size\<close> is its
  length, and returns with no error indication.
\<close>

theorem derive_seed_null_inputs:
  "derive_seed H base_seed tag None n = None
   \<and> derive_seed H base_seed tag (Some out) 0 = Some out
   \<and> (0 < n \<longrightarrow> derive_seed H None tag (Some out) n = Some (replicate n 0 @ drop n out))
   \<and> (0 < n \<longrightarrow> derive_seed H base_seed None (Some out) n = Some (replicate n 0 @ drop n out))
   \<and> (0 < n \<and> n = length out \<longrightarrow>
        derive_seed H None tag (Some out) n = Some (replicate n 0)
        \<and> derive_seed H base_seed None (Some out) n = Some (replicate n 0))"
  by (cases base_seed) (auto simp: derive_seed_def memset_def)

theorem derive_seed_null_inputs_witness:
  "derive_seed toy_hash None (Some ''p'') (Some [1, 2, 3, 4]) 4 = Some [0, 0, 0, 0]
   \<and> derive_seed toy_hash (Some (replicate 32 9)) None (Some [1, 2, 3, 4]) 4 = Some [0, 0, 0, 0]
   \<and> derive_seed toy_hash None (Some ''p'') (Some [1, 2, 3, 4]) 2 = Some [0, 0, 3, 4]
   \<and> derive_seed toy_hash (Some (replicate 32 9)) (Some ''p'') (Some [1, 2, 3, 4]) 0 = Some [1, 2, 3, 4]
   \<and> derive_seed toy_hash (Some (replicate 32 9)) (Some ''p'') None 4 = None"
proof -
  have "derive_seed toy_hash None (Some ''p'') (Some [1, 2, 3, 4]) 4 = Some [0, 0, 0, 0]"
    using derive_seed_null_inputs [of toy_hash None "Some ''p''" 4 "[1, 2, 3, 4]"] by (simp add: numeral_eq_Suc)
  moreover have "derive_seed toy_hash (Some (replicate 32 9)) None (Some [1, 2, 3, 4]) 4 = Some [0, 0, 0, 0]"
    using derive_seed_null_inputs [of toy_hash "Some (replicate 32 9)" None 4 "[1, 2, 3, 4]"] by (simp add: numeral_eq_Suc)
  moreover have "derive_seed toy_hash None (Some ''p'') (Some [1, 2, 3, 4]) 2 = Some [0, 0, 3, 4]"
    using derive_seed_null_inputs [of toy_hash None "Some ''p''" 2 "[1, 2, 3, 4]"] by (simp add: numeral_eq_Suc)
  moreover have "derive_seed toy_hash (Some (replicate 32 9)) (Some ''p'') (Some [1, 2, 3, 4]) 0 = Some [1, 2, 3, 4]"
    using derive_seed_null_inputs [of toy_hash "Some (replicate 32 9)" "Some ''p''" 4 "[1, 2, 3, 4]"] by (simp add: numeral_eq_Suc)
  moreover have "derive_seed toy_hash (Some (replicate 32 9)) (Some ''p'') None 4 = None"
    using derive_seed_null_inputs [of toy_hash "Some (replicate 32 9)" "Some ''p''" 4 "[1, 2, 3, 4]"] by (simp add: numeral_eq_Suc)
  ultimately show ?thesis by blast
qed

section \<open>Seed generation: \<^verbatim>\<open>z_seed_generator.h\<close>\<close>

definition ZSEED_OK :: int where
  "ZSEED_OK = 0"

definition ZSEED_ERR_NULL_POINTER :: int where
  "ZSEED_ERR_NULL_POINTER = - 1"

definition ZSEED_ERR_ENTROPY_UNAVAIL :: int where
  "ZSEED_ERR_ENTROPY_UNAVAIL = - 2"

definition ZSEED_ERR_READ_FAILURE :: int where
  "ZSEED_ERR_READ_FAILURE = - 3"

definition ZSEED_ERR_CRYPTO_FAILURE :: int where
  "ZSEED_ERR_CRYPTO_FAILURE = - 4"

text \<open>
  What the operating system and OpenSSL answer during one call of \<^verbatim>\<open>z_generate_seed\<close>:
  whether \<^verbatim>\<open>open("/dev/urandom")\<close> gives a descriptor; the return value of
  \<^verbatim>\<open>read\<close> and the bytes it stored; the bytes of \<^verbatim>\<open>mix_input\<close> (time of day, process id,
  CPU clock, monotonic clock); whether \<^verbatim>\<open>EVP_MD_CTX_new\<close> gives a context; the return
  values of the four digest calls; and the digest function of \<^verbatim>\<open>EVP_sha256\<close>.
\<close>

record seed_env =
  urandom_open :: bool
  read_ret :: int
  read_data :: "byte list"
  mix_input :: "byte list"
  md_ctx_new :: bool
  digest_init_ret :: int
  digest_update_seed_ret :: int
  digest_update_mix_ret :: int
  digest_final_ret :: int
  evp_sha256 :: "byte list \<Rightarrow> byte list"

text \<open>
  \<^verbatim>\<open>read\<close> returns \<open>- 1\<close> or the number of bytes stored, at most the 32 asked for.
\<close>

definition seed_env_ok :: "seed_env \<Rightarrow> bool" where
  "seed_env_ok env =
     (- 1 \<le> read_ret env \<and> read_ret env \<le> 32 \<and> length (read_data env) = nat (read_ret env))"

text \<open>
  \<^verbatim>\<open>z_generate_seed(seed)\<close>: the return code and the contents of the seed buffer after
  the call. \<open>digest_len\<close> starts at 0 and is set by a successful \<^verbatim>\<open>EVP_DigestFinal_ex\<close>.
\<close>

definition z_generate_seed :: "seed_env \<Rightarrow> byte list option \<Rightarrow> int \<times> byte list option" where
  "z_generate_seed env seed =
     (case seed of
        None \<Rightarrow> (ZSEED_ERR_NULL_POINTER, None)
      | Some buf \<Rightarrow>
          if \<not> urandom_open env then (ZSEED_ERR_ENTROPY_UNAVAIL, Some buf)
          else
            (let bytes_read = read_ret env;
                 buf1 = (if 0 < bytes_read then memcpy buf 0 (read_data env) (nat bytes_read) else buf)
             in if bytes_read \<noteq> int SEED_SIZE then (ZSEED_ERR_READ_FAILURE, Some buf1)
                else if \<not> md_ctx_new env then (ZSEED_ERR_CRYPTO_FAILURE, Some buf1)
                else
                  (let ok = digest_init_ret env AND digest_update_seed_ret env
                              AND digest_update_mix_ret env AND digest_final_ret env;
                       digest = evp_sha256 env (take SEED_SIZE buf1 @ mix_input env);
                       digest_len = (if digest_final_ret env \<noteq> 0 then length digest else 0)
                   in if ok = 0 \<or> digest_len < SEED_SIZE then (ZSEED_ERR_CRYPTO_FAILURE, Some buf1)
                      else (ZSEED_OK,
                            Some (map2 (XOR) (take SEED_SIZE buf1) (take SEED_SIZE digest)
                                  @ drop SEED_SIZE buf1)))))"

text \<open>The combined status of the four digest calls and the digest length, as the code computes them.\<close>

definition mixing_ok :: "seed_env \<Rightarrow> int" where
  "mixing_ok env = digest_init_ret env AND digest_update_seed_ret env
                     AND digest_update_mix_ret env AND digest_final_ret env"

definition mixing_digest_len :: "seed_env \<Rightarrow> nat" where
  "mixing_digest_len env =
     (if digest_final_ret env \<noteq> 0 then length (evp_sha256 env (read_data env @ mix_input env)) else 0)"

section \<open>Hex encoding of seeds\<close>

definition hex_char :: "nat \<Rightarrow> char" where
  "hex_char n = (if n < 10 then char_of (48 + n) else char_of (87 + n))"

text \<open>\<^verbatim>\<open>snprintf(p, 3, "%02x", b)\<close> for a byte: two lower-case digits.\<close>

definition snprintf_02x :: "byte \<Rightarrow> string" where
  "snprintf_02x b = [hex_char (unat b div 16), hex_char (unat b mod 16)]"

text \<open>\<^verbatim>\<open>z_seed_to_hex(seed, hex_out)\<close>: the string left in \<open>hex_out\<close>.\<close>

definition z_seed_to_hex :: "byte list \<Rightarrow> string" where
  "z_seed_to_hex seed = concat (map snprintf_02x (take SEED_SIZE seed))"

definition hex_digit_val :: "char \<Rightarrow> nat option" where
  "hex_digit_val c =
     (let n = (of_char c :: nat) in
      if 48 \<le> n \<and> n \<le> 57 then Some (n - 48)
      else if 97 \<le> n \<and> n \<le> 102 then Some (n - 87)
      else if 65 \<le> n \<and> n \<le> 70 then Some (n - 55)
      else None)"

definition isspace :: "char \<Rightarrow> bool" where
  "isspace c = (let n = (of_char c :: nat) in n = 32 \<or> (9 \<le> n \<and> n \<le> 13))"

text \<open>
  \<^verbatim>\<open>sscanf(s, "%02x", &byte_val)\<close> after ISO C: white space is skipped, then at most two
  characters are read that begin an optionally signed hexadecimal number (with an optional
  \<^verbatim>\<open>0x\<close>). The result is the value stored when the call returns 1, and \<open>None\<close> when it
  returns anything else (end of input, or no number there).
\<close>

definition sscanf_02x :: "string \<Rightarrow> 32 word option" where
  "sscanf_02x s =
     (case dropWhile isspace s of
        [] \<Rightarrow> None
      | c1 # rest \<Rightarrow>
          if c1 = CHR ''+'' \<or> c1 = CHR ''-'' then
            (case rest of
               [] \<Rightarrow> None
             | c2 # _ \<Rightarrow>
                 (case hex_digit_val c2 of
                    None \<Rightarrow> None
                  | Some v \<Rightarrow> Some (if c1 = CHR ''-'' then - of_nat v else of_nat v)))
          else
            (case hex_digit_val c1 of
               None \<Rightarrow> None
             | Some v1 \<Rightarrow>
                 (case rest of
                    [] \<Rightarrow> Some (of_nat v1)
                  | c2 # _ \<Rightarrow>
                      if c1 = CHR ''0'' \<and> (c2 = CHR ''x'' \<or> c2 = CHR ''X'') then None
                      else (case hex_digit_val c2 of
                              None \<Rightarrow> Some (of_nat v1)
                            | Some v2 \<Rightarrow> Some (of_nat (16 * v1 + v2))))))"

text \<open>
  The loop of \<^verbatim>\<open>z_hex_to_seed\<close>. \<open>hex_in\<close> is the C string, \<open>seed\<close> the output buffer.
  The result is \<open>None\<close> when the loop reads past the terminator of \<open>hex_in\<close>, which C leaves
  undefined, and otherwise the return code with the buffer.
\<close>

function hex_loop :: "string \<Rightarrow> byte list \<Rightarrow> nat \<Rightarrow> (int \<times> byte list) option" where
  "hex_loop hex_in seed i =
     (if i < SEED_SIZE then
        (if length hex_in < i * 2 then None
         else (case sscanf_02x (drop (i * 2) hex_in) of
                 None \<Rightarrow> Some (- 1, seed)
               | Some byte_val \<Rightarrow> hex_loop hex_in (seed[i := ucast byte_val]) (Suc i)))
      else Some (0, seed))"
  by pat_completeness auto
termination
  by (relation "measure (\<lambda>(hex_in, seed, i). SEED_SIZE - i)") auto

declare hex_loop.simps [simp del]

definition z_hex_to_seed :: "string option \<Rightarrow> byte list option \<Rightarrow> (int \<times> byte list option) option" where
  "z_hex_to_seed hex_in seed =
     (case hex_in of
        None \<Rightarrow> Some (- 1, seed)
      | Some h \<Rightarrow>
          (case seed of
             None \<Rightarrow> Some (- 1, None)
           | Some buf \<Rightarrow> map_option (\<lambda>(rc, b). (rc, Some b)) (hex_loop h buf 0)))"

text \<open>An environment in which every step succeeds, for evaluating \<^verbatim>\<open>z_generate_seed\<close>.\<close>

definition seed_env_example :: seed_env where
  "seed_env_example = \<lparr> urandom_open = True, read_ret = 32, read_data = replicate 32 90,
     mix_input = [1, 2, 3], md_ctx_new = True, digest_init_ret = 1, digest_update_seed_ret = 1,
     digest_update_mix_ret = 1, digest_final_ret = 1, evp_sha256 = toy_hash \<rparr>"

text \<open>
  Claim C8. \<^verbatim>\<open>z_generate_seed\<close>, called with a seed buffer of at least 32 bytes, fails
  closed. It returns \<^verbatim>\<open>ZSEED_ERR_ENTROPY_UNAVAIL\<close> exactly when the random source cannot be
  opened; \<^verbatim>\<open>ZSEED_ERR_READ_FAILURE\<close> exactly when the source was opened and fewer than 32
  bytes were read; \<^verbatim>\<open>ZSEED_ERR_CRYPTO_FAILURE\<close> exactly when 32 bytes were read and the
  SHA-256 mixing step cannot be set up or run (no digest context, or the combined status
  of the init, update and final calls is 0) or yields fewer than 32 digest bytes. It
  returns \<^verbatim>\<open>ZSEED_OK\<close> exactly when none of these happens, and then the seed is the 32
  bytes read from the operating system, each XORed with the byte at the same position of
  the SHA-256 digest of those bytes followed by the environment salt. No other source of
  randomness appears on any path.
\<close>

theorem z_generate_seed_fails_closed:
  assumes "seed_env_ok env" "32 \<le> length buf"
  shows "(fst (z_generate_seed env (Some buf)) = ZSEED_ERR_ENTROPY_UNAVAIL \<longleftrightarrow> \<not> urandom_open env)
   \<and> (fst (z_generate_seed env (Some buf)) = ZSEED_ERR_READ_FAILURE \<longleftrightarrow>
        urandom_open env \<and> read_ret env < 32)
   \<and> (fst (z_generate_seed env (Some buf)) = ZSEED_ERR_CRYPTO_FAILURE \<longleftrightarrow>
        urandom_open env \<and> read_ret env = 32
        \<and> (\<not> md_ctx_new env \<or> mixing_ok env = 0 \<or> mixing_digest_len env < 32))
   \<and> (fst (z_generate_seed env (Some buf)) = ZSEED_OK \<longleftrightarrow>
        urandom_open env \<and> read_ret env = 32 \<and> md_ctx_new env \<and> mixing_ok env \<noteq> 0
        \<and> 32 \<le> mixing_digest_len env)
   \<and> (fst (z_generate_seed env (Some buf)) = ZSEED_OK \<longrightarrow>
        snd (z_generate_seed env (Some buf)) =
          Some (map2 (XOR) (read_data env)
                  (take 32 (evp_sha256 env (read_data env @ mix_input env))) @ drop 32 buf))"
proof -
  have rd: "read_ret env = 32 \<Longrightarrow> take 32 (memcpy buf 0 (read_data env) 32) = read_data env"
    using assms by (simp add: seed_env_ok_def memcpy_def)
  have rd2: "read_ret env = 32 \<Longrightarrow> drop 32 (memcpy buf 0 (read_data env) 32) = drop 32 buf"
    using assms by (simp add: seed_env_ok_def memcpy_def)
  have le: "read_ret env \<le> 32" using assms by (simp add: seed_env_ok_def)
  show ?thesis
    using rd rd2 le
    by (auto simp: z_generate_seed_def Let_def SEED_SIZE_def mixing_ok_def mixing_digest_len_def
        ZSEED_OK_def ZSEED_ERR_ENTROPY_UNAVAIL_def ZSEED_ERR_READ_FAILURE_def
        ZSEED_ERR_CRYPTO_FAILURE_def)
qed

theorem z_generate_seed_fails_closed_witness:
  "seed_env_ok seed_env_example
   \<and> fst (z_generate_seed seed_env_example (Some (replicate 32 0))) = ZSEED_OK
   \<and> snd (z_generate_seed seed_env_example (Some (replicate 32 0))) = Some (replicate 32 51)"
proof -
  have a: "seed_env_ok seed_env_example"
    by (simp add: seed_env_ok_def seed_env_example_def)
  have b: "32 \<le> length (replicate 32 (0::byte))" by simp
  have c: "mixing_ok seed_env_example = 1"
    by (simp add: mixing_ok_def seed_env_example_def)
  have d: "mixing_digest_len seed_env_example = 32"
    by (simp add: mixing_digest_len_def seed_env_example_def toy_hash_def)
  have e: "map2 (XOR) (read_data seed_env_example)
             (take 32 (evp_sha256 seed_env_example (read_data seed_env_example @ mix_input seed_env_example)))
           = replicate 32 51"
    by (simp add: seed_env_example_def toy_hash_def sum_list_replicate zip_replicate map_replicate_const)
  have f: "urandom_open seed_env_example \<and> read_ret seed_env_example = 32 \<and> md_ctx_new seed_env_example"
    by (simp add: seed_env_example_def)
  show ?thesis
    using z_generate_seed_fails_closed [OF a b] a c d e f by simp
qed

subsection \<open>Hex encoding and decoding\<close>

lemma hex_digit_val_hex_char: "n < 16 \<Longrightarrow> hex_digit_val (hex_char n) = Some n"
  by (auto simp: hex_digit_val_def hex_char_def Let_def)

lemma hex_char_not_space: "n < 16 \<Longrightarrow> \<not> isspace (hex_char n)"
  by (auto simp: isspace_def hex_char_def Let_def)

lemma char_neq_by_code: "(of_char c :: nat) \<noteq> of_char d \<Longrightarrow> c \<noteq> d"
  by auto

lemma hex_char_not_sign:
  "n < 16 \<Longrightarrow> hex_char n \<noteq> CHR ''+'' \<and> hex_char n \<noteq> CHR ''-'' \<and> hex_char n \<noteq> CHR ''x'' \<and> hex_char n \<noteq> CHR ''X''"
  by (intro conjI char_neq_by_code) (auto simp: hex_char_def)

lemma sscanf_02x_snprintf:
  "sscanf_02x (snprintf_02x b @ rest) = Some (ucast b)"
proof -
  have a: "unat b div 16 < 16" "unat b mod 16 < 16"
    using unsigned_less [of b, where ?'a = nat] by auto
  have "16 * (unat b div 16) + unat b mod 16 = unat b" by simp
  then have v: "(of_nat (16 * (unat b div 16) + unat b mod 16) :: 32 word) = ucast b"
    by (simp only: of_nat_unat)
  have z: "hex_char (unat b div 16) = CHR ''0'' \<Longrightarrow> hex_char (unat b mod 16) \<noteq> CHR ''x'' \<and>  hex_char (unat b mod 16) \<noteq> CHR ''X''"
    using hex_char_not_sign [OF a(2)] by simp
  show ?thesis
    using hex_char_not_space [OF a(1)] hex_char_not_sign [OF a(1)] hex_char_not_sign [OF a(2)]
      hex_digit_val_hex_char [OF a(1)] hex_digit_val_hex_char [OF a(2)] v
    by (simp add: sscanf_02x_def snprintf_02x_def)
qed

lemma drop_concat_pairs:
  "\<forall>x\<in>set xs. length x = 2 \<Longrightarrow> i < length xs \<Longrightarrow>
   drop (i * 2) (concat xs) = xs ! i @ drop (Suc i * 2) (concat xs)"
proof (induction xs arbitrary: i)
  case Nil
  then show ?case by simp
next
  case (Cons a xs)
  show ?case
  proof (cases i)
    case 0
    then show ?thesis using Cons.prems by simp
  next
    case (Suc j)
    then show ?thesis using Cons by simp
  qed
qed

lemma length_concat_hex: "length (concat (map snprintf_02x S)) = 2 * length S"
  by (induction S) (auto simp: snprintf_02x_def)

lemma hex_loop_all_ok:
  assumes "\<forall>j<32. sscanf_02x (drop (j * 2) h) = Some (f j)" "62 \<le> length h"
  shows "i \<le> 32 \<Longrightarrow> 32 \<le> length buf \<Longrightarrow>
     hex_loop h buf i = Some (0, take i buf @ map (\<lambda>j. ucast (f j)) [i..<32] @ drop 32 buf)"
proof (induction "32 - i" arbitrary: i buf)
  case 0
  then have "i = 32" by simp
  then show ?case by (subst hex_loop.simps) (simp add: SEED_SIZE_def)
next
  case (Suc k)
  then have i: "i < 32" by simp
  have pos: "\<not> length h < i * 2" using i assms(2) by simp
  have sc: "sscanf_02x (drop (i * 2) h) = Some (f i)" using assms(1) i by simp
  have step: "hex_loop h buf i = hex_loop h (buf[i := ucast (f i)]) (Suc i)"
    using i pos sc by (subst hex_loop.simps) (simp add: SEED_SIZE_def)
  have IH: "hex_loop h (buf[i := ucast (f i)]) (Suc i) =
      Some (0, take (Suc i) (buf[i := ucast (f i)]) @ map (\<lambda>j. ucast (f j)) [Suc i..<32]
                 @ drop 32 (buf[i := ucast (f i)]))"
    using Suc.hyps(1) [of "Suc i" "buf[i := ucast (f i)]"] Suc.hyps(2) i Suc.prems by simp
  have t: "take (Suc i) (buf[i := ucast (f i)]) = take i buf @ [ucast (f i)]"
    using i Suc.prems by (simp add: take_Suc_conv_app_nth)
  have d: "drop 32 (buf[i := ucast (f i)]) = drop 32 buf"
    using i by simp
  have u: "[i..<32] = i # [Suc i..<32]"
    using i by (simp add: upt_conv_Cons)
  show ?case
    unfolding step IH t d u by simp
qed

lemma hex_roundtrip:
  assumes "length S = 32" "32 \<le> length buf"
  shows "z_hex_to_seed (Some (z_seed_to_hex S)) (Some buf) = Some (0, Some (S @ drop 32 buf))"
proof -
  let ?h = "concat (map snprintf_02x S)"
  have a: "\<forall>j<32. sscanf_02x (drop (j * 2) ?h) = Some (ucast (S ! j))"
  proof (intro allI impI)
    fix j :: nat assume "j < 32"
    then have "drop (j * 2) ?h = snprintf_02x (S ! j) @ drop (Suc j * 2) ?h"
      using drop_concat_pairs [of "map snprintf_02x S" j] assms(1)
      by (simp add: snprintf_02x_def)
    then show "sscanf_02x (drop (j * 2) ?h) = Some (ucast (S ! j))"
      by (simp only: sscanf_02x_snprintf)
  qed
  have b: "62 \<le> length ?h" using assms(1) by (simp add: length_concat_hex)
  have "hex_loop ?h buf 0 = Some (0, map (\<lambda>j. ucast (ucast (S ! j) :: 32 word)) [0..<32] @ drop 32 buf)"
    using hex_loop_all_ok [OF a b, of 0 buf] assms(2) by simp
  moreover have "map (\<lambda>j. (ucast (ucast (S ! j) :: 32 word) :: byte)) [0..<32] = S"
    using assms(1) map_nth [of S] by (simp add: ucast_up_ucast_id is_up)
  ultimately show ?thesis
    using assms(1) by (simp add: z_hex_to_seed_def z_seed_to_hex_def SEED_SIZE_def)
qed

lemma hex_char_range: "n < 16 \<Longrightarrow> hex_char n \<in> set ''0123456789abcdef''"
proof -
  assume "n < 16"
  then have n: "n \<in> {0, 1, 2, 3, 4, 5, 6, 7, 8, 9, 10, 11, 12, 13, 14, 15}" by simp arith
  have inj: "inj (of_char :: char \<Rightarrow> nat)"
    by (rule injI) simp
  have "(of_char (hex_char n) :: nat) \<in> of_char ` set ''0123456789abcdef''"
    using n by (auto simp: hex_char_def)
  then show ?thesis
    by (simp only: inj_image_mem_iff [OF inj])
qed

lemma z_seed_to_hex_shape:
  "length S = 32 \<Longrightarrow> length (z_seed_to_hex S) = 64 \<and> set (z_seed_to_hex S) \<subseteq> set ''0123456789abcdef''"
proof -
  assume l: "length S = 32"
  have a: "unat b div 16 < 16" "unat b mod 16 < 16" for b :: byte
    using unsigned_less [of b, where ?'a = nat] by auto
  have "set (snprintf_02x b) \<subseteq> set ''0123456789abcdef''" for b
    using hex_char_range [OF a(1), of b] hex_char_range [OF a(2), of b]
    by (simp add: snprintf_02x_def)
  then have "set (z_seed_to_hex S) \<subseteq> set ''0123456789abcdef''"
    unfolding z_seed_to_hex_def by (auto simp del: set_simps)
  then show ?thesis
    using l by (simp add: z_seed_to_hex_def length_concat_hex SEED_SIZE_def)
qed

lemma sscanf_02x_1g: "sscanf_02x (''1g'' @ rest) = Some 1"
  by (simp add: sscanf_02x_def hex_digit_val_def isspace_def)

lemma lit: "concat (replicate 32 ''1g'') = ''1g1g1g1g1g1g1g1g1g1g1g1g1g1g1g1g1g1g1g1g1g1g1g1g1g1g1g1g1g1g1g1g''"
  by (simp add: numeral_eq_Suc)

lemma z_hex_to_seed_rejects_nondigit: "z_hex_to_seed (Some ''zz'') (Some buf) = Some (- 1, Some buf)"
  by (simp add: z_hex_to_seed_def hex_loop.simps SEED_SIZE_def sscanf_02x_def hex_digit_val_def isspace_def)

lemma z_hex_to_seed_rejects_short: "z_hex_to_seed (Some ''ab'') (Some [0,0]) = Some (- 1, Some [171, 0])"
  by (simp add: z_hex_to_seed_def hex_loop.simps SEED_SIZE_def sscanf_02x_def hex_digit_val_def isspace_def)

lemma z_hex_to_seed_odd_length: "z_hex_to_seed (Some ''abc'') (Some [0,0,0]) = None"
  by (simp add: z_hex_to_seed_def hex_loop.simps SEED_SIZE_def sscanf_02x_def hex_digit_val_def isspace_def)

text \<open>
  Claim C9. For every 32-byte seed \<open>S\<close>, \<^verbatim>\<open>z_seed_to_hex\<close> gives 64 lower-case hexadecimal
  characters (lemma \<open>z_seed_to_hex_shape\<close>) and \<^verbatim>\<open>z_hex_to_seed\<close> on them succeeds and
  gives \<open>S\<close> back (lemma \<open>hex_roundtrip\<close>). The claim also says that \<^verbatim>\<open>z_hex_to_seed\<close>
  fails on malformed input. It does when a two-character position starts with a character
  that is no hexadecimal digit, or when the string ends early at an even position, but not
  always: \<^verbatim>\<open>sscanf\<close> with \<^verbatim>\<open>%02x\<close> converts one digit when the second character is no
  digit, so the 64-character string \<^verbatim>\<open>1g1g...1g\<close> is accepted, as the seed of 32 bytes
  \<^verbatim>\<open>0x01\<close>.
\<close>

theorem z_hex_to_seed_accepts_malformed:
  "z_hex_to_seed (Some ''1g1g1g1g1g1g1g1g1g1g1g1g1g1g1g1g1g1g1g1g1g1g1g1g1g1g1g1g1g1g1g1g'')
      (Some (replicate 32 0)) = Some (0, Some (replicate 32 1))"
proof -
  let ?h = "concat (replicate 32 ''1g'')"
  have a: "\<forall>j<32. sscanf_02x (drop (j * 2) ?h) = Some 1"
  proof (intro allI impI)
    fix j :: nat assume j: "j < 32"
    have "drop (j * 2) ?h = replicate 32 ''1g'' ! j @ drop (Suc j * 2) ?h"
      by (rule drop_concat_pairs) (use j in auto)
    then have "drop (j * 2) ?h = ''1g'' @ drop (Suc j * 2) ?h"
      using j by simp
    then show "sscanf_02x (drop (j * 2) ?h) = Some 1"
      by (simp only: sscanf_02x_1g)
  qed
  have b: "62 \<le> length ?h" by (simp add: length_concat sum_list_replicate)
  have "hex_loop ?h (replicate 32 0) 0 = Some (0, map (\<lambda>j. ucast (1 :: 32 word)) [0..<32] @ drop 32 (replicate 32 0))"
    using hex_loop_all_ok [OF a b, of 0 "replicate 32 0"] by simp
  moreover have "map (\<lambda>j. (ucast (1 :: 32 word) :: byte)) [0..<32] = replicate 32 1"
    by (simp add: map_replicate_const)
  ultimately have "hex_loop ?h (replicate 32 0) 0 = Some (0, replicate 32 1)" by simp
  then show ?thesis
    by (simp add: z_hex_to_seed_def lit [symmetric])
qed

section \<open>Miller-Rabin primality test\<close>

text \<open>
  The loop of \<^verbatim>\<open>mr_context_init\<close> that halves \<open>d\<close> while it is even. It does not end for
  \<open>d = 0\<close>, so its result is an \<open>option\<close>. The counter \<open>r\<close> stays below the bit length of
  \<open>d\<close> and is a \<open>nat\<close>.
\<close>

partial_function (option) odd_part_loop :: "int \<Rightarrow> nat \<Rightarrow> (int \<times> nat) option" where
  "odd_part_loop d r = (if even d then odd_part_loop (mpz_fdiv_q_2exp d 1) (Suc r) else Some (d, r))"

declare odd_part_loop.simps [code]

definition mr_context_init :: "int \<Rightarrow> mr_context_t option" where
  "mr_context_init n =
     (case odd_part_loop (n - 1) 0 of
        None \<Rightarrow> None
      | Some (d, r) \<Rightarrow>
          Some \<lparr> mr_n = n, n_minus_1 = n - 1, n_minus_3 = (if 3 < n then n - 3 else 0),
                 mr_d = d, mr_r = r \<rparr>)"

definition map_witness_into_range :: "mr_context_t \<Rightarrow> int \<Rightarrow> int" where
  "map_witness_into_range ctx witness =
     (if witness < 2 then 2
      else if n_minus_1 ctx \<le> witness then
        (if n_minus_3 ctx \<le> 1 then 2 else mpz_mod witness (n_minus_3 ctx) + 2)
      else witness)"

definition generate_standard_witnesses :: "nat \<Rightarrow> mr_context_t \<Rightarrow> int list" where
  "generate_standard_witnesses count ctx =
     (let limit = (if count < MR_STANDARD_WITNESSES then count else MR_STANDARD_WITNESSES)
      in map (\<lambda>i. map_witness_into_range ctx (MR_STANDARD_BASES ! i)) [0..<limit])"

text \<open>
  \<^verbatim>\<open>generate_geodesic_witnesses\<close>: the \<open>count\<close> witnesses it stores. Witness \<open>i\<close> is the
  SHA-256 digest of the candidate's bytes, the seed (when a configuration is given), the
  eight bytes of \<open>hint\<close> and the eight bytes of \<open>i\<close>, read as a big-endian number and mapped
  into range.
\<close>

definition geodesic_digest :: "extern \<Rightarrow> byte list \<Rightarrow> config_t option \<Rightarrow> ulong \<Rightarrow> nat \<Rightarrow> byte list" where
  "geodesic_digest ex candidate_bytes cfg hint i =
     sha256 ex (candidate_bytes
                @ (case cfg of None \<Rightarrow> [] | Some c \<Rightarrow> take SEED_SIZE (cfg_seed c))
                @ le_bytes64 hint @ le_bytes64 (of_nat i))"

definition generate_geodesic_witnesses ::
  "extern \<Rightarrow> nat \<Rightarrow> int \<Rightarrow> config_t option \<Rightarrow> ulong \<Rightarrow> mr_context_t \<Rightarrow> int list" where
  "generate_geodesic_witnesses ex count candidate cfg hint ctx =
     (if count = 0 then []
      else if n_minus_3 ctx \<le> 1 then replicate count 2
      else
        (let buf_size0 = (mpz_sizeinbase2 candidate + 7) div 8;
             buf_size = (if buf_size0 = 0 then 1 else buf_size0)
         in if \<not> malloc_ok ex buf_size then replicate count 2
            else
              (let exported = mpz_export candidate;
                   candidate_bytes = (if exported = [] then [0] else exported)
               in map (\<lambda>i. map_witness_into_range ctx
                               (mpz_import SHA256_DIGEST_LENGTH
                                  (geodesic_digest ex candidate_bytes cfg hint i)))
                      [0..<count])))"

text \<open>The squaring loop of \<^verbatim>\<open>miller_rabin_round\<close>, \<open>for (i = 1; i < r; ++i)\<close>.\<close>

function miller_rabin_loop :: "mr_context_t \<Rightarrow> nat \<Rightarrow> int \<Rightarrow> bool" where
  "miller_rabin_loop ctx i x =
     (if i < mr_r ctx then
        (let x' = mpz_powm_ui x 2 (mr_n ctx)
         in if x' = n_minus_1 ctx then True else miller_rabin_loop ctx (Suc i) x')
      else False)"
  by pat_completeness auto
termination
  by (relation "measure (\<lambda>(ctx, i, x). mr_r ctx - i)") auto

declare miller_rabin_loop.simps [simp del]

definition miller_rabin_round :: "mr_context_t \<Rightarrow> int \<Rightarrow> bool" where
  "miller_rabin_round ctx witness =
     (let x = mpz_powm witness (mr_d ctx) (mr_n ctx)
      in if x = 1 \<or> x = n_minus_1 ctx then True else miller_rabin_loop ctx 1 x)"

text \<open>A loop over a witness array that returns 0 at the first failing round.\<close>

fun all_rounds :: "mr_context_t \<Rightarrow> int list \<Rightarrow> bool" where
  "all_rounds ctx [] = True"
| "all_rounds ctx (w # ws) = (if \<not> miller_rabin_round ctx w then False else all_rounds ctx ws)"

definition candidate_is_probable_prime :: "extern \<Rightarrow> int \<Rightarrow> config_t option \<Rightarrow> ulong \<Rightarrow> bool option" where
  "candidate_is_probable_prime ex candidate cfg hint =
     (if candidate < 2 then Some False
      else if candidate = 2 then Some True
      else if even candidate then Some False
      else
        (case mr_context_init candidate of
           None \<Rightarrow> None
         | Some ctx \<Rightarrow>
             (let geodesic = generate_geodesic_witnesses ex MR_GEODESIC_WITNESSES candidate cfg hint ctx;
                  standard = generate_standard_witnesses MR_STANDARD_WITNESSES ctx
              in if \<not> all_rounds ctx geodesic then Some False
                 else if \<not> all_rounds ctx standard then Some False
                 else Some True)))"

subsection \<open>The reference definition\<close>

definition reference_round :: "int \<Rightarrow> nat \<Rightarrow> nat \<Rightarrow> int \<Rightarrow> bool" where
  "reference_round n d r a =
     (let x = a ^ d mod n
      in x = 1 \<or> x = n - 1 \<or> (\<exists>i\<in>{1..r - 1}. ((\<lambda>y. y * y mod n) ^^ i) x = n - 1))"

definition reference_range_map :: "int \<Rightarrow> int \<Rightarrow> int" where
  "reference_range_map n w =
     (if w < 2 then 2
      else if n - 1 \<le> w then (if n - 3 \<le> 1 then 2 else w mod (n - 3) + 2)
      else w)"

definition reference_fixed_witnesses :: "int \<Rightarrow> int list" where
  "reference_fixed_witnesses n = map (reference_range_map n) [2, 3, 5, 7, 11, 13, 17, 19]"

definition reference_seed_witnesses :: "extern \<Rightarrow> int \<Rightarrow> config_t option \<Rightarrow> ulong \<Rightarrow> int list" where
  "reference_seed_witnesses ex n cfg hint =
     map (\<lambda>i. reference_range_map n
                 (mpz_import 32 (geodesic_digest ex (mpz_export n) cfg hint i)))
         [0..<6]"

subsection \<open>The modulus context\<close>

lemma odd_part_loop_result:
  "d0 \<noteq> 0 \<Longrightarrow> \<exists>d k. odd_part_loop d0 r0 = Some (d, r0 + k) \<and> odd d \<and> d0 = d * 2 ^ k"
proof (induction "nat \<bar>d0\<bar>" arbitrary: d0 r0 rule: less_induct)
  case less
  show ?case
  proof (cases "even d0")
    case False
    then have "odd_part_loop d0 r0 = Some (d0, r0 + 0)"
      by (subst odd_part_loop.simps) simp
    with False show ?thesis by (intro exI [of _ d0] exI [of _ 0]) simp
  next
    case True
    then obtain h where h: "d0 = 2 * h" by (auto elim: evenE)
    have h0: "h \<noteq> 0" using less.prems h by simp
    have "nat \<bar>h\<bar> < nat \<bar>d0\<bar>" using h h0 by simp
    from less.hyps [OF this h0, of "Suc r0"]
    obtain d k where dk: "odd_part_loop h (Suc r0) = Some (d, Suc r0 + k)" "odd d" "h = d * 2 ^ k"
      by blast
    have "odd_part_loop d0 r0 = odd_part_loop h (Suc r0)"
      using True h by (subst odd_part_loop.simps) (simp add: mpz_fdiv_q_2exp_def)
    then have "odd_part_loop d0 r0 = Some (d, r0 + Suc k)" using dk(1) by simp
    moreover have "d0 = d * 2 ^ Suc k" using h dk(3) by simp
    ultimately have "odd_part_loop d0 r0 = Some (d, r0 + Suc k) \<and> odd d \<and> d0 = d * 2 ^ Suc k"
      using dk(2) by simp
    then show ?thesis by (intro exI [of _ d] exI [of _ "Suc k"])
  qed
qed

lemma odd_part_unique:
  fixes d d' :: int
  assumes "odd d" "odd d'" "d * 2 ^ k = d' * 2 ^ k'"
  shows "d = d' \<and> k = k'"
proof -
  have aux: "d = d' \<and> k = k'" if "k \<le> k'" "odd d" "odd d'" "d * 2 ^ k = d' * 2 ^ k'" for d d' :: int and k k'
  proof -
    define j where "j = k' - k"
    have j: "k' = k + j" using that(1) by (simp add: j_def)
    have nz: "(2::int) ^ k \<noteq> 0" by simp
    have "d' * 2 ^ k' = (d' * 2 ^ j) * 2 ^ k"
      unfolding j power_add by (simp only: ac_simps)
    then have "d * 2 ^ k = (d' * 2 ^ j) * 2 ^ k"
      using that(4) by (simp only:)
    then have e: "d = d' * 2 ^ j"
      by (simp only: mult_right_cancel [OF nz])
    have "j = 0"
    proof (rule ccontr)
      assume "j \<noteq> 0"
      then have "even (d' * 2 ^ j)" by simp
      with e that(2) show False by simp
    qed
    with e j show ?thesis by simp
  qed
  show ?thesis
  proof (cases "k \<le> k'")
    case True
    show ?thesis using aux [OF True assms] .
  next
    case False
    then have "k' \<le> k" by simp
    then have "d' = d \<and> k' = k" using aux [of k' k d' d] assms by simp
    then show ?thesis by simp
  qed
qed

lemma mr_context_init_odd:
  assumes "3 \<le> n" "odd n"
  shows "\<exists>d r. mr_context_init n = Some \<lparr> mr_n = n, n_minus_1 = n - 1,
            n_minus_3 = (if 3 < n then n - 3 else 0), mr_d = d, mr_r = r \<rparr>
          \<and> odd d \<and> 0 < d \<and> 0 < r \<and> n - 1 = d * 2 ^ r"
proof -
  have "n - 1 \<noteq> 0" using assms by simp
  from odd_part_loop_result [OF this, of 0]
  obtain d k where dk: "odd_part_loop (n - 1) 0 = Some (d, k)" "odd d" "n - 1 = d * 2 ^ k"
    by auto
  have "k \<noteq> 0" using dk(2,3) assms(2) by (cases k) auto
  moreover have "0 < d"
  proof (rule ccontr)
    assume "\<not> 0 < d"
    then have "d * 2 ^ k \<le> 0" by (simp add: mult_le_0_iff)
    with dk(3) assms(1) show False by simp
  qed
  ultimately show ?thesis
    using dk by (simp add: mr_context_init_def)
qed

lemma mr_context_init_total:
  "n \<noteq> 1 \<Longrightarrow> \<exists>d r. mr_context_init n = Some \<lparr> mr_n = n, n_minus_1 = n - 1,
            n_minus_3 = (if 3 < n then n - 3 else 0), mr_d = d, mr_r = r \<rparr>"
proof -
  assume "n \<noteq> 1"
  then have "n - 1 \<noteq> 0" by simp
  from odd_part_loop_result [OF this, of 0]
  obtain d k where "odd_part_loop (n - 1) 0 = Some (d, k)" by auto
  then show ?thesis by (simp add: mr_context_init_def)
qed

section \<open>Primes and strong probable primes\<close>

text \<open>
  Number theory for the acceptance of primes: Fermat's little theorem, the square roots of
  1 modulo a prime, and primality by trial division.
\<close>

definition is_prime :: "nat \<Rightarrow> bool" where
  "is_prime p = (1 < p \<and> (\<forall>m. m dvd p \<longrightarrow> m = 1 \<or> m = p))"

lemma prime_coprime: "is_prime p \<Longrightarrow> \<not> p dvd a \<Longrightarrow> coprime p a"
proof -
  assume p: "is_prime p" and nd: "\<not> p dvd a"
  have "gcd p a dvd p" by simp
  then have "gcd p a = 1 \<or> gcd p a = p" using p by (auto simp: is_prime_def)
  moreover have "gcd p a \<noteq> p"
  proof
    assume "gcd p a = p"
    then have "p dvd a" by (metis gcd_dvd2)
    with nd show False by simp
  qed
  ultimately show ?thesis by (simp add: coprime_iff_gcd_eq_1)
qed

lemma prime_dvd_mult: "is_prime p \<Longrightarrow> p dvd a * b \<Longrightarrow> p dvd a \<or> p dvd b"
  using prime_coprime coprime_dvd_mult_right_iff by blast

lemma prime_dvd_choose:
  assumes "is_prime p" "0 < k" "k < p"
  shows "p dvd (p choose k)"
proof -
  have "k * (p choose k) = p * ((p - 1) choose (k - 1))"
    using assms(2) by (rule times_binomial_minus1_eq)
  then have "p dvd k * (p choose k)" by simp
  moreover have "\<not> p dvd k" using assms(2,3) by (auto dest: dvd_imp_le)
  ultimately show ?thesis using prime_dvd_mult [OF assms(1)] by blast
qed

lemma fermat_step:
  fixes a :: nat
  assumes "is_prime p"
  shows "(a + 1) ^ p mod p = (a ^ p + 1) mod p"
proof -
  have p: "0 < p" using assms by (simp add: is_prime_def)
  have "(a + 1) ^ p = (\<Sum>k\<le>p. (p choose k) * a ^ k)"
    using binomial [of a 1 p] by simp
  also have "{..p} = insert 0 (insert p {0<..<p})"
    using p by auto
  also have "(\<Sum>k\<in>insert 0 (insert p {0<..<p}). (p choose k) * a ^ k)
      = 1 + (a ^ p + (\<Sum>k\<in>{0<..<p}. (p choose k) * a ^ k))"
    using p by simp
  finally have e: "(a + 1) ^ p = (a ^ p + 1) + (\<Sum>k\<in>{0<..<p}. (p choose k) * a ^ k)"
    by simp
  have "p dvd (\<Sum>k\<in>{0<..<p}. (p choose k) * a ^ k)"
    by (rule dvd_sum) (use prime_dvd_choose [OF assms] in auto)
  then show ?thesis
    unfolding e by (metis mod_add_self2 dvd_eq_mod_eq_0 mod_add_right_eq add.right_neutral)
qed

lemma fermat_little: "is_prime p \<Longrightarrow> a ^ p mod p = a mod p" for a :: nat
proof (induction a)
  case 0
  then show ?case by (simp add: is_prime_def zero_power)
next
  case (Suc a)
  have "Suc a ^ p mod p = Suc (a ^ p) mod p"
    using fermat_step [OF Suc.prems, of a] by simp
  also have "\<dots> = Suc (a ^ p mod p) mod p" by (simp add: mod_Suc_eq)
  also have "\<dots> = Suc (a mod p) mod p" using Suc by simp
  also have "\<dots> = Suc a mod p" by (simp add: mod_Suc_eq)
  finally show ?case .
qed

lemma fermat_little_pred:
  fixes a :: nat
  assumes "is_prime p" "\<not> p dvd a"
  shows "a ^ (p - 1) mod p = 1"
proof -
  have p: "1 < p" using assms by (simp add: is_prime_def)
  have a: "1 \<le> a" using assms(2) by (cases a) auto
  have le: "a \<le> a ^ p" using a p by (simp add: self_le_power)
  have "a ^ p mod p = a mod p" by (rule fermat_little [OF assms(1)])
  then have "p dvd a ^ p - a"
    using le by (simp add: mod_eq_dvd_iff_nat)
  moreover have "a ^ p - a = a * (a ^ (p - 1) - 1)"
    using p by (cases p) (auto simp: algebra_simps)
  ultimately have "p dvd a ^ (p - 1) - 1"
    using prime_dvd_mult [OF assms(1), of a "a ^ (p - 1) - 1"] assms(2) by simp
  moreover have "1 \<le> a ^ (p - 1)" using a by simp
  ultimately have "a ^ (p - 1) mod p = 1 mod p"
    using mod_eq_dvd_iff_nat [of 1 "a ^ (p - 1)" p] by blast
  then show ?thesis using p by simp
qed

lemma prime_sqrt_one:
  assumes "is_prime p" "x < p" "x * x mod p = 1"
  shows "x = 1 \<or> x = p - 1"
proof -
  have p: "1 < p" using assms by (simp add: is_prime_def)
  have x: "1 \<le> x" using assms(3) by (cases x) auto
  then have "1 \<le> x * x" by simp
  moreover have "x * x mod p = 1 mod p" using assms(3) p by simp
  ultimately have "p dvd x * x - 1"
    using mod_eq_dvd_iff_nat [of 1 "x * x" p] by blast
  moreover have "x * x - 1 = (x - 1) * (x + 1)"
    using x by (simp add: algebra_simps)
  ultimately have "p dvd x - 1 \<or> p dvd x + 1"
    using prime_dvd_mult [OF assms(1)] by simp
  then show ?thesis
  proof
    assume "p dvd x - 1"
    then have "x - 1 = 0" using assms(2) by (auto dest!: dvd_imp_le)
    then show ?thesis using x by simp
  next
    assume "p dvd x + 1"
    then have "p \<le> x + 1" by (auto dest: dvd_imp_le)
    then show ?thesis using assms(2) by arith
  qed
qed

lemma mr_chain:
  fixes a :: nat
  assumes "is_prime p"
  shows "a ^ (d * 2 ^ j) mod p = 1 \<Longrightarrow> a ^ d mod p = 1 \<or> (\<exists>i<j. a ^ (d * 2 ^ i) mod p = p - 1)"
proof (induction j)
  case 0
  then show ?case by simp
next
  case (Suc j)
  have p: "1 < p" using assms by (simp add: is_prime_def)
  define x where "x = a ^ (d * 2 ^ j) mod p"
  have "d * 2 ^ Suc j = d * 2 ^ j + d * 2 ^ j" by simp
  then have "a ^ (d * 2 ^ Suc j) = a ^ (d * 2 ^ j) * a ^ (d * 2 ^ j)"
    by (simp only: power_add)
  then have "x * x mod p = 1"
    using Suc.prems by (simp add: x_def mod_mult_eq)
  moreover have "x < p" using p by (simp add: x_def)
  ultimately have "x = 1 \<or> x = p - 1"
    using prime_sqrt_one [OF assms] by blast
  then show ?case
  proof
    assume "x = 1"
    then have "a ^ d mod p = 1 \<or> (\<exists>i<j. a ^ (d * 2 ^ i) mod p = p - 1)"
      using Suc.IH by (simp add: x_def)
    then show ?thesis using less_Suc_eq by auto
  next
    assume "x = p - 1"
    then have "j < Suc j \<and> a ^ (d * 2 ^ j) mod p = p - 1" by (simp add: x_def)
    then show ?thesis by (intro disjI2 exI [of _ j])
  qed
qed

lemma strong_probable_prime:
  fixes a :: nat
  assumes "is_prime p" "0 < a" "a < p" "p - 1 = d * 2 ^ r"
  shows "a ^ d mod p = 1 \<or> (\<exists>i<r. a ^ (d * 2 ^ i) mod p = p - 1)"
proof -
  have "\<not> p dvd a" using assms(2,3) by (auto dest: dvd_imp_le)
  then have "a ^ (p - 1) mod p = 1" by (rule fermat_little_pred [OF assms(1)])
  then show ?thesis using mr_chain [OF assms(1), of a d r] assms(4) by simp
qed

function has_divisor_in :: "nat \<Rightarrow> nat \<Rightarrow> nat \<Rightarrow> bool" where
  "has_divisor_in p d k = (if k < d then False else (d dvd p \<or> has_divisor_in p (Suc d) k))"
  by pat_completeness auto
termination
  by (relation "measure (\<lambda>(p, d, k). Suc k - d)") auto

declare has_divisor_in.simps [simp del]

lemma has_divisor_in_iff: "has_divisor_in p d k \<longleftrightarrow> (\<exists>e. d \<le> e \<and> e \<le> k \<and> e dvd p)"
proof (induction p d k rule: has_divisor_in.induct)
  case (1 p d k)
  show ?case
  proof (cases "k < d")
    case True
    then show ?thesis by (subst has_divisor_in.simps) auto
  next
    case False
    have "(\<exists>e. d \<le> e \<and> e \<le> k \<and> e dvd p) \<longleftrightarrow> d dvd p \<or> (\<exists>e. Suc d \<le> e \<and> e \<le> k \<and> e dvd p)"
    proof
      assume "\<exists>e. d \<le> e \<and> e \<le> k \<and> e dvd p"
      then obtain e where e: "d \<le> e" "e \<le> k" "e dvd p" by blast
      show "d dvd p \<or> (\<exists>e. Suc d \<le> e \<and> e \<le> k \<and> e dvd p)"
      proof (cases "e = d")
        case True
        with e show ?thesis by simp
      next
        case False
        with e have "Suc d \<le> e" by simp
        with e show ?thesis by blast
      qed
    next
      assume "d dvd p \<or> (\<exists>e. Suc d \<le> e \<and> e \<le> k \<and> e dvd p)"
      then show "\<exists>e. d \<le> e \<and> e \<le> k \<and> e dvd p"
        using False by (auto simp: not_less intro: Suc_leD)
    qed
    then show ?thesis
      using False 1 by (subst has_divisor_in.simps) simp
  qed
qed

lemma is_prime_trial:
  assumes "1 < p" "p < (k + 1) * (k + 1)" "\<not> has_divisor_in p 2 k"
  shows "is_prime p"
  unfolding is_prime_def
proof (intro conjI allI impI)
  show "1 < p" by fact
next
  fix m assume m: "m dvd p"
  show "m = 1 \<or> m = p"
  proof (rule ccontr)
    assume c: "\<not> (m = 1 \<or> m = p)"
    obtain q where q: "p = m * q" using m by (auto elim: dvdE)
    have "m \<noteq> 0"
    proof
      assume "m = 0"
      with q have "p = 0" by simp
      with assms(1) show False by simp
    qed
    moreover have "q \<noteq> 0"
    proof
      assume "q = 0"
      with q have "p = 0" by simp
      with assms(1) show False by simp
    qed
    ultimately have m0: "m \<noteq> 0" "q \<noteq> 0" by simp_all
    have "m \<noteq> 1" using c by simp
    then have m2: "2 \<le> m" using m0 by arith
    have "q \<noteq> 1" using c q by auto
    then have q2: "2 \<le> q" using m0 by arith
    have nd: "k < d" if "2 \<le> d" "d dvd p" for d
    proof (rule ccontr)
      assume "\<not> k < d"
      then have "has_divisor_in p 2 k"
        using that by (auto simp: has_divisor_in_iff not_less)
      with assms(3) show False by simp
    qed
    have "k < m" using nd [OF m2 m] .
    moreover have "k < q" using nd [OF q2] q by simp
    ultimately have "(k + 1) * (k + 1) \<le> m * q"
      by (intro mult_mono) simp_all
    with assms(2) q show False by simp
  qed
qed

lemma p97: "is_prime 97"
  by (rule is_prime_trial [of _ 9]) (simp_all add: has_divisor_in.simps)


lemma p104729: "is_prime 104729"
  by (rule is_prime_trial [of _ 323]) (simp_all add: has_divisor_in.simps)

subsection \<open>One round\<close>

lemma funpow_square_power:
  fixes a n :: int
  shows "((\<lambda>y. y * y mod n) ^^ k) (a ^ d mod n) = a ^ (d * 2 ^ k) mod n"
proof (induction k)
  case 0
  then show ?case by simp
next
  case (Suc k)
  have "d * 2 ^ Suc k = d * 2 ^ k + d * 2 ^ k" by simp
  then have "a ^ (d * 2 ^ Suc k) = a ^ (d * 2 ^ k) * a ^ (d * 2 ^ k)"
    by (simp only: power_add)
  then show ?case
    using Suc by (simp add: mod_mult_eq)
qed

lemma miller_rabin_loop_iff:
  assumes "mr_n ctx = n" "0 < n" "n_minus_1 ctx = n - 1" "mr_r ctx = r"
  shows "miller_rabin_loop ctx i x \<longleftrightarrow> (\<exists>k\<in>{1..r - i}. ((\<lambda>y. y * y mod n) ^^ k) x = n - 1)"
proof (induction "r - i" arbitrary: i x)
  case 0
  then have "\<not> i < mr_r ctx" using assms(4) by simp
  then have "\<not> miller_rabin_loop ctx i x"
    by (subst miller_rabin_loop.simps) simp
  moreover have "{1..r - i} = {}" using 0 by simp
  ultimately show ?case by simp
next
  case (Suc m)
  define f where "f = (\<lambda>y::int. y * y mod n)"
  have i: "i < r" using Suc.hyps(2) by simp
  have sq: "mpz_powm_ui x 2 (mr_n ctx) = f x"
    using assms(1,2) by (simp add: mpz_powm_ui_def f_def power2_eq_square)
  have step: "miller_rabin_loop ctx i x \<longleftrightarrow> f x = n - 1 \<or> miller_rabin_loop ctx (Suc i) (f x)"
    using i assms(3,4) sq by (subst miller_rabin_loop.simps) (simp add: Let_def)
  have IH: "miller_rabin_loop ctx (Suc i) (f x) \<longleftrightarrow> (\<exists>k\<in>{1..r - Suc i}. (f ^^ k) (f x) = n - 1)"
    using Suc.hyps(1) [of "Suc i" "f x"] Suc.hyps(2) by (simp add: f_def)
  have shift: "(f ^^ k) (f x) = (f ^^ Suc k) x" for k
    by (simp add: funpow_swap1)
  have "(\<exists>k\<in>{1..r - i}. (f ^^ k) x = n - 1) \<longleftrightarrow>
        f x = n - 1 \<or> (\<exists>k\<in>{1..r - Suc i}. (f ^^ Suc k) x = n - 1)"
  proof
    assume "\<exists>k\<in>{1..r - i}. (f ^^ k) x = n - 1"
    then obtain k where k: "1 \<le> k" "k \<le> r - i" "(f ^^ k) x = n - 1" by auto
    show "f x = n - 1 \<or> (\<exists>k\<in>{1..r - Suc i}. (f ^^ Suc k) x = n - 1)"
    proof (cases "k = 1")
      case True
      with k(3) show ?thesis by simp
    next
      case False
      then obtain j where j: "k = Suc j" "1 \<le> j" using k(1) by (cases k) auto
      then have "j \<in> {1..r - Suc i}" using k(2) by auto
      with k(3) j(1) show ?thesis by blast
    qed
  next
    assume "f x = n - 1 \<or> (\<exists>k\<in>{1..r - Suc i}. (f ^^ Suc k) x = n - 1)"
    then show "\<exists>k\<in>{1..r - i}. (f ^^ k) x = n - 1"
    proof
      assume "f x = n - 1"
      then have "(f ^^ 1) x = n - 1" by simp
      moreover have "1 \<in> {1..r - i}" using i by auto
      ultimately show ?thesis by blast
    next
      assume "\<exists>k\<in>{1..r - Suc i}. (f ^^ Suc k) x = n - 1"
      then obtain k where k: "k \<in> {1..r - Suc i}" "(f ^^ Suc k) x = n - 1" by blast
      then have "Suc k \<in> {1..r - i}" by auto
      with k(2) show ?thesis by blast
    qed
  qed
  then show ?case
    using step IH shift by (simp add: f_def)
qed

lemma miller_rabin_round_reference:
  assumes "mr_n ctx = n" "0 < n" "n_minus_1 ctx = n - 1" "mr_r ctx = r" "mr_d ctx = int d"
  shows "miller_rabin_round ctx a = reference_round n d r a"
proof -
  have x: "mpz_powm a (mr_d ctx) (mr_n ctx) = a ^ d mod n"
    using assms by (simp add: mpz_powm_def)
  show ?thesis
    unfolding miller_rabin_round_def reference_round_def x Let_def
    using miller_rabin_loop_iff [OF assms(1-4), of 1 "a ^ d mod n"] assms(3)
    by auto
qed

lemma all_rounds_list_all: "all_rounds ctx ws = list_all (miller_rabin_round ctx) ws"
  by (induction ws) auto

subsection \<open>Witness generation\<close>

lemma map_witness_reference:
  assumes "n_minus_1 ctx = n - 1" "n_minus_3 ctx = (if 3 < n then n - 3 else 0)"
  shows "map_witness_into_range ctx w = reference_range_map n w"
  using assms by (auto simp: map_witness_into_range_def reference_range_map_def mpz_mod_def)

lemma reference_range_map_bounds:
  "4 < n \<Longrightarrow> 2 \<le> reference_range_map n w \<and> reference_range_map n w \<le> n - 2"
proof -
  assume n: "4 < n"
  have "w mod (n - 3) < n - 3"
    using n by simp
  moreover have "0 \<le> w mod (n - 3)"
    using n by simp
  ultimately have "w mod (n - 3) + 2 \<le> n - 2" "2 \<le> w mod (n - 3) + 2"
    by linarith+
  then show ?thesis
    using n by (auto simp: reference_range_map_def)
qed

lemma standard_witnesses_reference:
  assumes "n_minus_1 ctx = n - 1" "n_minus_3 ctx = (if 3 < n then n - 3 else 0)"
  shows "generate_standard_witnesses MR_STANDARD_WITNESSES ctx = reference_fixed_witnesses n"
proof -
  have "map (\<lambda>i. f (xs ! i)) [0..<length xs] = map f xs" for f :: "int \<Rightarrow> int" and xs
    by (rule nth_equalityI) auto
  note m = this [of "map_witness_into_range ctx" MR_STANDARD_BASES]
  have l: "length MR_STANDARD_BASES = 8"
    by (simp add: MR_STANDARD_BASES_def)
  have "generate_standard_witnesses MR_STANDARD_WITNESSES ctx
      = map (map_witness_into_range ctx) MR_STANDARD_BASES"
    using m unfolding l
    by (simp add: generate_standard_witnesses_def MR_STANDARD_WITNESSES_def)
  also have "\<dots> = reference_fixed_witnesses n"
    using map_witness_reference [OF assms]
    by (simp add: reference_fixed_witnesses_def MR_STANDARD_BASES_def)
  finally show ?thesis .
qed

lemma be_bytes_nonempty: "0 < n \<Longrightarrow> be_bytes n \<noteq> []"
  by (subst be_bytes.simps) simp

lemma geodesic_witnesses_reference:
  assumes "n_minus_1 ctx = n - 1" "n_minus_3 ctx = (if 3 < n then n - 3 else 0)" "3 \<le> n"
    "\<forall>k. malloc_ok ex k"
  shows "generate_geodesic_witnesses ex MR_GEODESIC_WITNESSES n cfg hint ctx
           = reference_seed_witnesses ex n cfg hint"
proof (cases "n - 3 \<le> 1")
  case True
  then have "reference_range_map n w = 2" for w
    using assms(3) by (auto simp: reference_range_map_def)
  then have "reference_seed_witnesses ex n cfg hint = map (\<lambda>i. 2) [0..<6]"
    by (simp add: reference_seed_witnesses_def)
  also have "\<dots> = replicate 6 2"
    by (simp add: map_replicate_const)
  finally show ?thesis
    using True assms(2,3)
    by (auto simp: generate_geodesic_witnesses_def MR_GEODESIC_WITNESSES_def)
next
  case False
  have ne: "mpz_export n \<noteq> []"
    using assms(3) by (simp add: mpz_export_def be_bytes_nonempty)
  show ?thesis
    using False assms(2,4) ne map_witness_reference [OF assms(1,2)]
    by (simp add: generate_geodesic_witnesses_def reference_seed_witnesses_def Let_def
        MR_GEODESIC_WITNESSES_def SHA256_DIGEST_LENGTH_def)
qed

lemma int_pow_mod: "(int a) ^ k mod int p = int (a ^ k mod p)"
  by (simp add: zmod_int)

lemma reference_round_prime:
  assumes "is_prime p" "n = int p" "n - 1 = int d * 2 ^ r" "0 < a" "a < n"
  shows "reference_round n d r a"
proof -
  define a' where "a' = nat a"
  have a: "a = int a'" using assms(4) by (simp add: a'_def)
  have a'pos: "0 < a'" "a' < p" using assms(2,4,5) by (simp_all add: a'_def)
  have p: "1 < p" using assms(1) by (simp add: is_prime_def)
  have "int (p - 1) = int (d * 2 ^ r)" using assms(2,3) p by (simp add: of_nat_diff)
  then have dec: "p - 1 = d * 2 ^ r" by (simp only: of_nat_eq_iff)
  have n1: "n - 1 = int (p - 1)" using assms(2) p by (simp add: of_nat_diff)
  have pw: "a ^ k mod n = int (a' ^ k mod p)" for k
    unfolding a assms(2) by (rule int_pow_mod)
  from strong_probable_prime [OF assms(1) a'pos dec]
  show ?thesis
  proof
    assume "a' ^ d mod p = 1"
    then have "a ^ d mod n = 1" by (simp add: pw)
    then show ?thesis by (simp add: reference_round_def)
  next
    assume "\<exists>i<r. a' ^ (d * 2 ^ i) mod p = p - 1"
    then obtain i where i: "i < r" "a' ^ (d * 2 ^ i) mod p = p - 1" by blast
    then have e: "a ^ (d * 2 ^ i) mod n = n - 1" by (simp add: pw n1)
    show ?thesis
    proof (cases "i = 0")
      case True
      with e have "a ^ d mod n = n - 1" by simp
      then show ?thesis by (simp add: reference_round_def)
    next
      case False
      then have "i \<in> {1..r - 1}" using i(1) by auto
      moreover have "((\<lambda>y. y * y mod n) ^^ i) (a ^ d mod n) = n - 1"
        using e by (simp only: funpow_square_power)
      ultimately show ?thesis
        unfolding reference_round_def Let_def by blast
    qed
  qed
qed

lemma standard_witnesses_in_range:
  assumes "n_minus_1 ctx = n - 1" "n_minus_3 ctx = (if 3 < n then n - 3 else 0)" "4 < n"
  shows "\<forall>w\<in>set (generate_standard_witnesses count ctx). 2 \<le> w \<and> w \<le> n - 2"
  using reference_range_map_bounds [OF assms(3)] map_witness_reference [OF assms(1,2)]
  by (auto simp: generate_standard_witnesses_def Let_def)

lemma geodesic_witnesses_in_range:
  assumes "n_minus_1 ctx = n - 1" "n_minus_3 ctx = (if 3 < n then n - 3 else 0)" "4 < n"
  shows "\<forall>w\<in>set (generate_geodesic_witnesses ex count candidate cfg hint ctx). 2 \<le> w \<and> w \<le> n - 2"
  using reference_range_map_bounds [OF assms(3)] map_witness_reference [OF assms(1,2)] assms(3)
  by (auto simp: generate_geodesic_witnesses_def Let_def)

lemma prime_is_probable_prime:
  assumes "is_prime p" "4 < p"
  shows "candidate_is_probable_prime ex (int p) cfg hint = Some True"
proof -
  define n where "n = int p"
  have n: "4 < n" "3 \<le> n" using assms(2) by (simp_all add: n_def)
  have odd: "odd n"
  proof
    assume "even n"
    then have "2 dvd p" by (simp add: n_def)
    with assms show False by (auto simp: is_prime_def)
  qed
  from mr_context_init_odd [OF n(2) odd]
  obtain d r where ctx: "mr_context_init n = Some \<lparr> mr_n = n, n_minus_1 = n - 1,
            n_minus_3 = (if 3 < n then n - 3 else 0), mr_d = d, mr_r = r \<rparr>"
     and d: "0 < d" "n - 1 = d * 2 ^ r"
    by blast
  define c where "c = \<lparr> mr_n = n, n_minus_1 = n - 1,
            n_minus_3 = (if 3 < n then n - 3 else 0), mr_d = d, mr_r = r \<rparr>"
  have f: "mr_n c = n" "0 < n" "n_minus_1 c = n - 1" "mr_r c = r" "mr_d c = int (nat d)"
    "n_minus_3 c = (if 3 < n then n - 3 else 0)"
    using n d(1) by (simp_all add: c_def)
  have dec: "n - 1 = int (nat d) * 2 ^ r" using d by simp
  have pass: "miller_rabin_round c w" if "2 \<le> w" "w \<le> n - 2" for w
  proof -
    have "reference_round n (nat d) r w"
      by (rule reference_round_prime [OF assms(1) n_def dec]) (use that in auto)
    then show ?thesis
      by (simp only: miller_rabin_round_reference [OF f(1-5)])
  qed
  have g: "all_rounds c (generate_geodesic_witnesses ex MR_GEODESIC_WITNESSES n cfg hint c)"
    using geodesic_witnesses_in_range [OF f(3) f(6) n(1)] pass
    by (simp add: all_rounds_list_all list_all_iff)
  have s: "all_rounds c (generate_standard_witnesses MR_STANDARD_WITNESSES c)"
    using standard_witnesses_in_range [OF f(3) f(6) n(1)] pass
    by (simp add: all_rounds_list_all list_all_iff)
  have ctx': "mr_context_init n = Some c"
    using ctx by (simp only: c_def)
  have "candidate_is_probable_prime ex n cfg hint = Some True"
    using n odd g s
    by (simp add: candidate_is_probable_prime_def ctx')
  then show ?thesis by (simp add: n_def)
qed

lemma base2_rejects:
  assumes "mr_context_init n = Some ctx" "2 < n" "odd n" "\<not> miller_rabin_round ctx 2"
    "n_minus_1 ctx = n - 1" "3 < n"
  shows "candidate_is_probable_prime ex n cfg hint = Some False"
proof -
  have "map_witness_into_range ctx 2 = 2"
    using assms(5,6) by (simp add: map_witness_into_range_def)
  then have "generate_standard_witnesses MR_STANDARD_WITNESSES ctx
      = 2 # map (\<lambda>i. map_witness_into_range ctx (MR_STANDARD_BASES ! i)) [1..<8]"
    by (simp add: generate_standard_witnesses_def MR_STANDARD_WITNESSES_def upt_conv_Cons
        MR_STANDARD_BASES_def)
  then have "\<not> all_rounds ctx (generate_standard_witnesses MR_STANDARD_WITNESSES ctx)"
    using assms(4) by simp
  then show ?thesis
    using assms(1-3) by (simp add: candidate_is_probable_prime_def Let_def)
qed

lemma ctx341: "mr_context_init 341 = Some \<lparr> mr_n = 341, n_minus_1 = 340, n_minus_3 = 338, mr_d = 85, mr_r = 2 \<rparr>"
  by (simp add: mr_context_init_def odd_part_loop.simps mpz_fdiv_q_2exp_def)

lemma ctx561: "mr_context_init 561 = Some \<lparr> mr_n = 561, n_minus_1 = 560, n_minus_3 = 558, mr_d = 35, mr_r = 4 \<rparr>"
  by (simp add: mr_context_init_def odd_part_loop.simps mpz_fdiv_q_2exp_def)

lemma ctx645: "mr_context_init 645 = Some \<lparr> mr_n = 645, n_minus_1 = 644, n_minus_3 = 642, mr_d = 161, mr_r = 2 \<rparr>"
  by (simp add: mr_context_init_def odd_part_loop.simps mpz_fdiv_q_2exp_def)

lemma round341: "\<not> miller_rabin_round \<lparr> mr_n = 341, n_minus_1 = 340, n_minus_3 = 338, mr_d = 85, mr_r = 2 \<rparr> 2"
  by (simp add: miller_rabin_round_def miller_rabin_loop.simps mpz_powm_def mpz_powm_ui_def)

lemma round561: "\<not> miller_rabin_round \<lparr> mr_n = 561, n_minus_1 = 560, n_minus_3 = 558, mr_d = 35, mr_r = 4 \<rparr> 2"
  by (simp add: miller_rabin_round_def miller_rabin_loop.simps mpz_powm_def mpz_powm_ui_def)

lemma round645: "\<not> miller_rabin_round \<lparr> mr_n = 645, n_minus_1 = 644, n_minus_3 = 642, mr_d = 161, mr_r = 2 \<rparr> 2"
  by (simp add: miller_rabin_round_def miller_rabin_loop.simps mpz_powm_def mpz_powm_ui_def)

text \<open>
  Claim C6. For every seed, hint and environment, \<^verbatim>\<open>candidate_is_probable_prime\<close> returns
  false for 341, 561 and 645: the fixed witness 2, which is always tried, fails its round.
  It returns true for the primes 97 and 104729: every witness in range passes.
\<close>

theorem known_composites_and_primes:
  "candidate_is_probable_prime ex 341 cfg hint = Some False
   \<and> candidate_is_probable_prime ex 561 cfg hint = Some False
   \<and> candidate_is_probable_prime ex 645 cfg hint = Some False
   \<and> candidate_is_probable_prime ex 97 cfg hint = Some True
   \<and> candidate_is_probable_prime ex 104729 cfg hint = Some True"
proof (intro conjI)
  show "candidate_is_probable_prime ex 341 cfg hint = Some False"
    by (rule base2_rejects [OF ctx341 _ _ round341]) simp_all
  show "candidate_is_probable_prime ex 561 cfg hint = Some False"
    by (rule base2_rejects [OF ctx561 _ _ round561]) simp_all
  show "candidate_is_probable_prime ex 645 cfg hint = Some False"
    by (rule base2_rejects [OF ctx645 _ _ round645]) simp_all
  show "candidate_is_probable_prime ex 97 cfg hint = Some True"
    using prime_is_probable_prime [OF p97, of ex cfg hint] by simp
  show "candidate_is_probable_prime ex 104729 cfg hint = Some True"
    using prime_is_probable_prime [OF p104729, of ex cfg hint] by simp
qed

section \<open>The primality check against its reference\<close>

definition example_extern :: extern where
  "example_extern = \<lparr> sha256 = toy_hash, malloc_ok = (\<lambda>k. True) \<rparr>"

lemma le_bytes64_small: "le_bytes64 0 = [0,0,0,0,0,0,0,0]" "le_bytes64 1 = [1,0,0,0,0,0,0,0]"
  "le_bytes64 2 = [2,0,0,0,0,0,0,0]" "le_bytes64 3 = [3,0,0,0,0,0,0,0]"
  "le_bytes64 4 = [4,0,0,0,0,0,0,0]" "le_bytes64 5 = [5,0,0,0,0,0,0,0]"
  by (simp_all add: le_bytes64_def upt_conv_Cons drop_bit_eq_div)

lemma be13: "mpz_export 13 = [13]"
  by (simp add: mpz_export_def be_bytes.simps)

lemma import_replicate: "mpz_import 32 (replicate 32 b) = uint b * ((256 ^ 32 - 1) div 255)"
  by (simp add: mpz_import_def numeral_eq_Suc algebra_simps)

lemma seed13: "reference_seed_witnesses example_extern 13 None 0 = [2, 9, 6, 3, 10, 7]"
  by (simp add: reference_seed_witnesses_def geodesic_digest_def example_extern_def toy_hash_def
      be13 le_bytes64_small upt_conv_Cons import_replicate reference_range_map_def)

lemma fixed13: "reference_fixed_witnesses 13 = [2, 3, 5, 7, 11, 5, 9, 11]"
  by (simp add: reference_fixed_witnesses_def reference_range_map_def)

lemma rounds13: "list_all (reference_round 13 3 2) [2, 9, 6, 3, 10, 7, 2, 3, 5, 7, 11, 5, 9, 11]"
  by (simp add: reference_round_def)

text \<open>
  Claim C1. \<^verbatim>\<open>candidate_is_probable_prime\<close> always returns, and its result is that of the
  reference definition: false for \<open>n < 2\<close>, true for \<open>n = 2\<close>, false for every other even
  \<open>n\<close>; for odd \<open>n > 2\<close> with \<open>n - 1 = d * 2 ^ r\<close> and \<open>d\<close> odd, true exactly when the
  reference round passes for each of the 6 seed-derived witnesses and then each of the 8
  fixed witnesses. A reference round with witness \<open>a\<close> computes \<open>x = a ^ d mod n\<close>, passes
  when \<open>x\<close> is 1 or \<open>n - 1\<close>, and otherwise squares \<open>x\<close> modulo \<open>n\<close> up to \<open>r - 1\<close> times and
  passes when one of these squares is \<open>n - 1\<close>. The code stops at the first failing round,
  which gives the same result as trying every round. The seed-derived witnesses are those
  of the reference when the allocation of the candidate's byte buffer succeeds.
\<close>

theorem candidate_is_probable_prime_reference:
  "(n < 2 \<longrightarrow> candidate_is_probable_prime ex n cfg hint = Some False)
   \<and> (n = 2 \<longrightarrow> candidate_is_probable_prime ex n cfg hint = Some True)
   \<and> (2 < n \<and> even n \<longrightarrow> candidate_is_probable_prime ex n cfg hint = Some False)
   \<and> (2 < n \<and> odd n \<and> odd d \<and> n - 1 = int d * 2 ^ r \<and> (\<forall>k. malloc_ok ex k) \<longrightarrow>
        candidate_is_probable_prime ex n cfg hint =
          Some (list_all (reference_round n d r)
                  (reference_seed_witnesses ex n cfg hint @ reference_fixed_witnesses n)))"
proof (intro conjI impI)
  assume "n < 2"
  then show "candidate_is_probable_prime ex n cfg hint = Some False"
    by (simp add: candidate_is_probable_prime_def)
next
  assume "n = 2"
  then show "candidate_is_probable_prime ex n cfg hint = Some True"
    by (simp add: candidate_is_probable_prime_def)
next
  assume "2 < n \<and> even n"
  then show "candidate_is_probable_prime ex n cfg hint = Some False"
    by (simp add: candidate_is_probable_prime_def)
next
  assume a: "2 < n \<and> odd n \<and> odd d \<and> n - 1 = int d * 2 ^ r \<and> (\<forall>k. malloc_ok ex k)"
  then have n: "3 \<le> n" "odd n" "0 < n" by simp_all
  from mr_context_init_odd [OF n(1,2)]
  obtain dc rc where ctx: "mr_context_init n = Some \<lparr> mr_n = n, n_minus_1 = n - 1,
            n_minus_3 = (if 3 < n then n - 3 else 0), mr_d = dc, mr_r = rc \<rparr>"
     and dc: "odd dc" "n - 1 = dc * 2 ^ rc"
    by blast
  have "odd (int d)" using a by simp
  moreover have "dc * 2 ^ rc = int d * 2 ^ r" using dc(2) a by simp
  ultimately have "dc = int d \<and> rc = r"
    by (rule odd_part_unique [OF dc(1)])
  then have u: "dc = int d" "rc = r" by simp_all
  define c where "c = \<lparr> mr_n = n, n_minus_1 = n - 1,
            n_minus_3 = (if 3 < n then n - 3 else 0), mr_d = dc, mr_r = rc \<rparr>"
  have f: "mr_n c = n" "0 < n" "n_minus_1 c = n - 1" "mr_r c = r" "mr_d c = int d"
    "n_minus_3 c = (if 3 < n then n - 3 else 0)"
    using n u by (simp_all add: c_def)
  have ctx': "mr_context_init n = Some c"
    using ctx by (simp only: c_def)
  have rounds: "all_rounds c ws = list_all (reference_round n d r) ws" for ws
    unfolding all_rounds_list_all
    by (rule list.pred_cong) (simp_all add: miller_rabin_round_reference [OF f(1-5)])
  have g: "generate_geodesic_witnesses ex MR_GEODESIC_WITNESSES n cfg hint c
      = reference_seed_witnesses ex n cfg hint"
    using geodesic_witnesses_reference [OF f(3) f(6) n(1)] a by simp
  have s: "generate_standard_witnesses MR_STANDARD_WITNESSES c = reference_fixed_witnesses n"
    by (rule standard_witnesses_reference [OF f(3) f(6)])
  show "candidate_is_probable_prime ex n cfg hint =
          Some (list_all (reference_round n d r)
                  (reference_seed_witnesses ex n cfg hint @ reference_fixed_witnesses n))"
    using n a by (auto simp: candidate_is_probable_prime_def ctx' rounds g s)
qed

theorem candidate_is_probable_prime_reference_witness:
  "candidate_is_probable_prime example_extern 1 None 0 = Some False
   \<and> candidate_is_probable_prime example_extern 2 None 0 = Some True
   \<and> candidate_is_probable_prime example_extern 4 None 0 = Some False
   \<and> reference_seed_witnesses example_extern 13 None 0 @ reference_fixed_witnesses 13
        = [2, 9, 6, 3, 10, 7, 2, 3, 5, 7, 11, 5, 9, 11]
   \<and> candidate_is_probable_prime example_extern 13 None 0 = Some True"
proof -
  have m: "\<forall>k. malloc_ok example_extern k"
    by (simp add: example_extern_def)
  have h: "(2::int) < 13 \<and> odd (13::int) \<and> odd (3::nat) \<and> (13::int) - 1 = int 3 * 2 ^ 2
      \<and> (\<forall>k. malloc_ok example_extern k)"
    using m by simp
  have a: "candidate_is_probable_prime example_extern 1 None 0 = Some False"
    using candidate_is_probable_prime_reference [of 1 example_extern None 0] by simp
  have b: "candidate_is_probable_prime example_extern 2 None 0 = Some True"
    using candidate_is_probable_prime_reference [of 2 example_extern None 0] by simp
  have c: "candidate_is_probable_prime example_extern 4 None 0 = Some False"
    using candidate_is_probable_prime_reference [of 4 example_extern None 0] by simp
  have d: "candidate_is_probable_prime example_extern 13 None 0 =
      Some (list_all (reference_round 13 3 2)
              (reference_seed_witnesses example_extern 13 None 0 @ reference_fixed_witnesses 13))"
    using candidate_is_probable_prime_reference [of 13 example_extern None 0 3 2] h by blast
  have e: "reference_seed_witnesses example_extern 13 None 0 @ reference_fixed_witnesses 13
        = [2, 9, 6, 3, 10, 7, 2, 3, 5, 7, 11, 5, 9, 11]"
    by (simp add: seed13 fixed13)
  show ?thesis
    using a b c d e rounds13 by simp
qed

lemma ctx7: "mr_context_init 7 = Some \<lparr> mr_n = 7, n_minus_1 = 6, n_minus_3 = 4, mr_d = 3, mr_r = 1 \<rparr>"
  by (simp add: mr_context_init_def odd_part_loop.simps mpz_fdiv_q_2exp_def)

lemma ctx3: "mr_context_init 3 = Some \<lparr> mr_n = 3, n_minus_1 = 2, n_minus_3 = 0, mr_d = 1, mr_r = 1 \<rparr>"
  by (simp add: mr_context_init_def odd_part_loop.simps mpz_fdiv_q_2exp_def)

lemma standard7:
  "generate_standard_witnesses MR_STANDARD_WITNESSES
     \<lparr> mr_n = 7, n_minus_1 = 6, n_minus_3 = 4, mr_d = 3, mr_r = 1 \<rparr> = [2, 3, 5, 5, 5, 3, 3, 5]"
  by (simp add: generate_standard_witnesses_def MR_STANDARD_WITNESSES_def MR_STANDARD_BASES_def
      upt_conv_Cons map_witness_into_range_def mpz_mod_def)

text \<open>
  Claim C2. For every candidate \<open>n\<close> other than 1 the modulus context is computed, and the
  range mapping of the code is the one the specification words: a witness below 2 becomes
  2, a witness \<open>w\<close> of at least \<open>n - 1\<close> becomes \<open>w mod (n - 3) + 2\<close>, or 2 when
  \<open>n - 3 \<le> 1\<close>. For \<open>n > 4\<close> every fixed witness and every seed-derived witness (for any
  count, seed, hint, hash and allocation outcome) lies in \<open>[2, n - 2]\<close>; for \<open>n \<le> 4\<close> every
  mapped witness is 2.
\<close>

theorem witness_range:
  "n \<noteq> 1 \<longrightarrow>
     (\<exists>ctx. mr_context_init n = Some ctx
        \<and> (\<forall>w. map_witness_into_range ctx w = reference_range_map n w)
        \<and> (4 < n \<longrightarrow>
             (\<forall>w\<in>set (generate_standard_witnesses MR_STANDARD_WITNESSES ctx). 2 \<le> w \<and> w \<le> n - 2)
             \<and> (\<forall>w\<in>set (generate_geodesic_witnesses ex count n cfg hint ctx). 2 \<le> w \<and> w \<le> n - 2))
        \<and> (n \<le> 4 \<longrightarrow> (\<forall>w. map_witness_into_range ctx w = 2)))"
proof
  assume "n \<noteq> 1"
  from mr_context_init_total [OF this]
  obtain d r where ctx: "mr_context_init n = Some \<lparr> mr_n = n, n_minus_1 = n - 1,
            n_minus_3 = (if 3 < n then n - 3 else 0), mr_d = d, mr_r = r \<rparr>"
    by blast
  define c where "c = \<lparr> mr_n = n, n_minus_1 = n - 1,
            n_minus_3 = (if 3 < n then n - 3 else 0), mr_d = d, mr_r = r \<rparr>"
  have f: "n_minus_1 c = n - 1" "n_minus_3 c = (if 3 < n then n - 3 else 0)"
    by (simp_all add: c_def)
  have ctx': "mr_context_init n = Some c"
    using ctx by (simp only: c_def)
  have m: "\<forall>w. map_witness_into_range c w = reference_range_map n w"
    using map_witness_reference [OF f] by simp
  have small: "n \<le> 4 \<longrightarrow> (\<forall>w. map_witness_into_range c w = 2)"
    using m by (auto simp: reference_range_map_def)
  have big: "4 < n \<longrightarrow>
             (\<forall>w\<in>set (generate_standard_witnesses MR_STANDARD_WITNESSES c). 2 \<le> w \<and> w \<le> n - 2)
             \<and> (\<forall>w\<in>set (generate_geodesic_witnesses ex count n cfg hint c). 2 \<le> w \<and> w \<le> n - 2)"
    using standard_witnesses_in_range [OF f] geodesic_witnesses_in_range [OF f] by simp
  show "\<exists>ctx. mr_context_init n = Some ctx
        \<and> (\<forall>w. map_witness_into_range ctx w = reference_range_map n w)
        \<and> (4 < n \<longrightarrow>
             (\<forall>w\<in>set (generate_standard_witnesses MR_STANDARD_WITNESSES ctx). 2 \<le> w \<and> w \<le> n - 2)
             \<and> (\<forall>w\<in>set (generate_geodesic_witnesses ex count n cfg hint ctx). 2 \<le> w \<and> w \<le> n - 2))
        \<and> (n \<le> 4 \<longrightarrow> (\<forall>w. map_witness_into_range ctx w = 2))"
    using ctx' m small big by (intro exI [of _ c] conjI)
qed

theorem witness_range_witness:
  "mr_context_init 7 = Some \<lparr> mr_n = 7, n_minus_1 = 6, n_minus_3 = 4, mr_d = 3, mr_r = 1 \<rparr>
   \<and> generate_standard_witnesses MR_STANDARD_WITNESSES
        \<lparr> mr_n = 7, n_minus_1 = 6, n_minus_3 = 4, mr_d = 3, mr_r = 1 \<rparr> = [2, 3, 5, 5, 5, 3, 3, 5]
   \<and> list_all (\<lambda>w. 2 \<le> w \<and> w \<le> 7 - 2)
        (generate_geodesic_witnesses example_extern 6 7 None 0
           \<lparr> mr_n = 7, n_minus_1 = 6, n_minus_3 = 4, mr_d = 3, mr_r = 1 \<rparr>)
   \<and> map_witness_into_range \<lparr> mr_n = 7, n_minus_1 = 6, n_minus_3 = 4, mr_d = 3, mr_r = 1 \<rparr> 19
        = reference_range_map 7 19
   \<and> map_witness_into_range \<lparr> mr_n = 3, n_minus_1 = 2, n_minus_3 = 0, mr_d = 1, mr_r = 1 \<rparr> 19 = 2"
proof -
  have "(7::int) \<noteq> 1" by simp
  with witness_range [of 7 example_extern 6 None 0]
  obtain c where c: "mr_context_init 7 = Some c"
    "\<forall>w. map_witness_into_range c w = reference_range_map 7 w"
    "\<forall>w\<in>set (generate_geodesic_witnesses example_extern 6 7 None 0 c). 2 \<le> w \<and> w \<le> 7 - 2"
    by auto
  have c7: "c = \<lparr> mr_n = 7, n_minus_1 = 6, n_minus_3 = 4, mr_d = 3, mr_r = 1 \<rparr>"
    using c(1) ctx7 by simp
  have "(3::int) \<noteq> 1" by simp
  with witness_range [of 3 example_extern 6 None 0]
  obtain c' where c': "mr_context_init 3 = Some c'" "\<forall>w. map_witness_into_range c' w = 2"
    by auto
  have c3: "c' = \<lparr> mr_n = 3, n_minus_1 = 2, n_minus_3 = 0, mr_d = 1, mr_r = 1 \<rparr>"
    using c'(1) ctx3 by simp
  show ?thesis
    using c(2,3) c'(2) ctx7 standard7 unfolding c7 c3
    by (simp add: list_all_iff)
qed

section \<open>Candidate search\<close>

definition x931_too_close_2048 :: "int \<Rightarrow> int \<Rightarrow> bool" where
  "x931_too_close_2048 a b =
     (let ah = mpz_fdiv_q_2exp a (2048 - 100);
          bh = mpz_fdiv_q_2exp b (2048 - 100)
      in ah = bh)"

text \<open>
  What a search hands back: the return value, the value written to \<^verbatim>\<open>result_out\<close> (\<open>None\<close>
  when it is not written), and the values left in \<^verbatim>\<open>*attempts_used\<close> and
  \<^verbatim>\<open>*used_parallel\<close>.
\<close>

record search_result =
  sr_found :: bool
  sr_result_out :: "int option"
  sr_attempts_used :: ulong
  sr_used_parallel :: bool

text \<open>
  The parameters of \<^verbatim>\<open>search_prime_candidates\<close> other than the start. The model is the
  sequential path of the function: the parallel block is compiled only with OpenMP and
  runs only with more than one thread.
\<close>

record search_args =
  sa_max_attempts :: ulong
  sa_cfg :: "config_t option"
  sa_hint_seed :: ulong
  sa_limit_bit :: nat
  sa_clamp_on_limit :: bool
  sa_too_close_ref :: "int option"
  sa_enforce_not_too_close :: bool

definition not_found :: "ulong \<Rightarrow> search_result" where
  "not_found max_attempts =
     \<lparr> sr_found = False, sr_result_out = None, sr_attempts_used = max_attempts,
       sr_used_parallel = False \<rparr>"

lemma ulong_succ: "attempt < (m :: ulong) \<Longrightarrow> unat (attempt + 1) = Suc (unat attempt)"
proof -
  assume "attempt < m"
  then have "unat attempt < unat m" by (simp add: word_less_nat_alt)
  moreover have "unat m < 2 ^ 64" using unsigned_less [of m, where ?'a = nat] by simp
  ultimately have "unat attempt + 1 < 2 ^ 64" by simp
  then show ?thesis by (simp add: unat_word_ariths)
qed

function search_loop :: "extern \<Rightarrow> search_args \<Rightarrow> ulong \<Rightarrow> int \<Rightarrow> search_result option" where
  "search_loop ex a attempt candidate =
     (if attempt < sa_max_attempts a then
        (case candidate_is_probable_prime ex candidate (sa_cfg a) (sa_hint_seed a XOR attempt) of
           None \<Rightarrow> None
         | Some probable \<Rightarrow>
             if probable \<and>
                (\<not> sa_enforce_not_too_close a
                 \<or> (case sa_too_close_ref a of
                       None \<Rightarrow> True
                     | Some ref \<Rightarrow> \<not> x931_too_close_2048 ref candidate))
             then Some \<lparr> sr_found = True, sr_result_out = Some candidate,
                         sr_attempts_used = attempt, sr_used_parallel = False \<rparr>
             else
               (let candidate' = candidate + 2
                in if 0 < sa_limit_bit a \<and> mpz_tstbit candidate' (sa_limit_bit a) then
                     (if sa_clamp_on_limit a then
                        search_loop ex a (attempt + 1)
                          (mpz_setbit (mpz_clrbit candidate' (sa_limit_bit a)) (sa_limit_bit a - 1))
                      else Some (not_found (sa_max_attempts a)))
                   else search_loop ex a (attempt + 1) candidate'))
      else Some (not_found (sa_max_attempts a)))"
  by pat_completeness auto
termination
  by (relation "measure (\<lambda>(ex, a, attempt, candidate). unat (sa_max_attempts a) - unat attempt)")
     (auto simp: ulong_succ word_less_nat_alt)

declare search_loop.simps [simp del]

definition search_prime_candidates :: "extern \<Rightarrow> int \<Rightarrow> search_args \<Rightarrow> search_result option" where
  "search_prime_candidates ex start a =
     (if sa_max_attempts a = 0 then Some (not_found (sa_max_attempts a))
      else search_loop ex a 0 start)"

section \<open>Segmented guided search\<close>

definition ULONG_MAX :: ulong where
  "ULONG_MAX = 18446744073709551615"

record guided_args =
  ga_max_attempts :: ulong
  ga_cfg :: "config_t option"
  ga_hint_seed :: ulong
  ga_too_close_ref :: "int option"
  ga_enforce_not_too_close :: bool

record guided_state =
  gs_current_start :: int
  gs_remaining :: ulong
  gs_offset :: ulong

datatype guided_step = Continue guided_state | Return search_result

definition modulus_2048 :: int where
  "modulus_2048 = 1 * 2 ^ 2048"

text \<open>The segment length chosen at the head of an iteration, for a positive distance.\<close>

definition guided_segment :: "int \<Rightarrow> ulong \<Rightarrow> ulong" where
  "guided_segment distance remaining =
     (let segment = remaining;
          twice_seg = (if ULONG_MAX div 2 < segment then ULONG_MAX else segment * 2)
      in if distance \<le> uint twice_seg then
           (let safe_steps0 = mpz_get_ui distance div 2;
                safe_steps = (if safe_steps0 = 0 then 1 else safe_steps0)
            in if safe_steps < segment then safe_steps else segment)
         else segment)"

text \<open>
  One iteration of the loop of \<^verbatim>\<open>guided_prime_search\<close>, entered with \<open>remaining > 0\<close>:
  either the loop goes on from a new state, or it is left and the function returns.
\<close>

definition guided_body :: "extern \<Rightarrow> guided_args \<Rightarrow> int \<Rightarrow> guided_state \<Rightarrow> guided_step option" where
  "guided_body ex a base_start s =
     (let distance = modulus_2048 - gs_current_start s
      in if distance \<le> 0 then Some (Return (not_found (ga_max_attempts a)))
         else
           (let segment = guided_segment distance (gs_remaining s)
            in case search_prime_candidates ex (gs_current_start s)
                      \<lparr> sa_max_attempts = segment, sa_cfg = ga_cfg a,
                        sa_hint_seed = ga_hint_seed a + gs_offset s, sa_limit_bit = 2048,
                        sa_clamp_on_limit = False, sa_too_close_ref = ga_too_close_ref a,
                        sa_enforce_not_too_close = ga_enforce_not_too_close a \<rparr> of
                 None \<Rightarrow> None
               | Some res \<Rightarrow>
                   if sr_found res then
                     Some (Return \<lparr> sr_found = True, sr_result_out = sr_result_out res,
                                    sr_attempts_used = gs_offset s + sr_attempts_used res,
                                    sr_used_parallel = sr_used_parallel res \<rparr>)
                   else
                     (let offset' = gs_offset s + segment;
                          remaining' = gs_remaining s - segment
                      in if remaining' = 0 then Some (Return (not_found (ga_max_attempts a)))
                         else
                           (let current_start' = base_start + uint (2 * offset')
                            in if modulus_2048 \<le> current_start'
                               then Some (Return (not_found (ga_max_attempts a)))
                               else Some (Continue \<lparr> gs_current_start = current_start',
                                                       gs_remaining = remaining',
                                                       gs_offset = offset' \<rparr>)))))"

lemma guided_segment_bounds:
  assumes "0 < remaining"
  shows "0 < guided_segment distance remaining \<and> guided_segment distance remaining \<le> remaining"
proof -
  have "(0::ulong) < 1" by simp
  then show ?thesis
    using assms
    by (auto simp: guided_segment_def Let_def word_less_nat_alt word_le_nat_alt unat_gt_0)
qed

lemma guided_body_decreases:
  assumes "0 < gs_remaining s" "guided_body ex a base_start s = Some (Continue s')"
  shows "unat (gs_remaining s') < unat (gs_remaining s)"
proof -
  define distance where "distance = modulus_2048 - gs_current_start s"
  define segment where "segment = guided_segment distance (gs_remaining s)"
  have seg: "0 < segment" "segment \<le> gs_remaining s"
    using guided_segment_bounds [OF assms(1), of distance] by (simp_all add: segment_def)
  have "gs_remaining s' = gs_remaining s - segment"
    using assms(2)
    by (auto simp: guided_body_def Let_def distance_def segment_def
        split: if_splits option.splits)
  then have "unat (gs_remaining s') = unat (gs_remaining s) - unat segment"
    using seg(2) by (simp add: unat_sub)
  moreover have "0 < unat segment" "unat segment \<le> unat (gs_remaining s)"
    using seg by (simp_all add: word_less_nat_alt word_le_nat_alt)
  ultimately show ?thesis by simp
qed

function guided_loop :: "extern \<Rightarrow> guided_args \<Rightarrow> int \<Rightarrow> guided_state \<Rightarrow> search_result option" where
  "guided_loop ex a base_start s =
     (if 0 < gs_remaining s then
        (case guided_body ex a base_start s of
           None \<Rightarrow> None
         | Some (Return res) \<Rightarrow> Some res
         | Some (Continue s') \<Rightarrow> guided_loop ex a base_start s')
      else Some (not_found (ga_max_attempts a)))"
  by pat_completeness auto
termination
  by (relation "measure (\<lambda>(ex, a, base_start, s). unat (gs_remaining s))")
     (auto simp: guided_body_decreases)

declare guided_loop.simps [simp del]

text \<open>The folded start: the estimate modulo \<open>2^2048\<close> with bit 2047 and bit 0 set.\<close>

definition folded_start :: "int \<Rightarrow> int" where
  "folded_start estimated_start =
     (let base0 = mpz_mod estimated_start modulus_2048;
          base1 = mpz_setbit base0 2047
      in if \<not> mpz_tstbit base1 0 then mpz_setbit base1 0 else base1)"

definition guided_prime_search :: "extern \<Rightarrow> int \<Rightarrow> guided_args \<Rightarrow> search_result option" where
  "guided_prime_search ex estimated_start a =
     (let base_start = folded_start estimated_start
      in guided_loop ex a base_start
           \<lparr> gs_current_start = base_start, gs_remaining = ga_max_attempts a, gs_offset = 0 \<rparr>)"

subsection \<open>Unfolding the candidate loop\<close>







subsection \<open>What a search returns\<close>











subsection \<open>An even start\<close>





end
